theory Spec2Isabelle
  imports Complex_Main "HOL-Library.Sublist" "HOL-Library.Multiset" "HOL-Library.Product_Lexorder"
begin

section \<open>Strings\<close>

text \<open>
  A JavaScript string is a sequence of UTF-16 code units. The model is \<open>string\<close>, a list
  of \<open>char\<close>, read as the code units 0 to 255 (ASCII and Latin-1), so \<open>length\<close> is the
  source's \<open>.length\<close>. The built-in methods \<open>startsWith\<close>, \<open>endsWith\<close> and \<open>includes\<close>
  (here \<open>includesStr\<close>) are \<open>prefix\<close>, \<open>suffix\<close> and \<open>sublist\<close> with the arguments
  swapped.
\<close>

definition charCode :: "char \<Rightarrow> nat" where
  "charCode c = of_char c"

text \<open>The class \<open>\s\<close> of a regular expression, which is also what \<open>trim\<close> removes:
  tab, line feed, vertical tab, form feed, carriage return, space and no-break space.\<close>

definition isWhiteSpace :: "char \<Rightarrow> bool" where
  "isWhiteSpace c = (charCode c \<in> {9, 10, 11, 12, 13, 32, 160})"

text \<open>The classes \<open>[0-9]\<close> (also \<open>\d\<close>) and \<open>[A-Za-z]\<close>.\<close>

definition isDigit :: "char \<Rightarrow> bool" where
  "isDigit c = (48 \<le> charCode c \<and> charCode c \<le> 57)"

definition isLetter :: "char \<Rightarrow> bool" where
  "isLetter c = ((65 \<le> charCode c \<and> charCode c \<le> 90) \<or> (97 \<le> charCode c \<and> charCode c \<le> 122))"

text \<open>\<open>toLowerCase\<close>: A to Z, and the Latin-1 capitals 192 to 222 without the
  multiplication sign 215, move up by 32; every other code unit stays.\<close>

definition toLowerChar :: "char \<Rightarrow> char" where
  "toLowerChar c =
     (if (65 \<le> charCode c \<and> charCode c \<le> 90) \<or>
         (192 \<le> charCode c \<and> charCode c \<le> 222 \<and> charCode c \<noteq> 215)
      then char_of (charCode c + 32) else c)"

definition toLowerCase :: "string \<Rightarrow> string" where
  "toLowerCase s = map toLowerChar s"

definition trim :: "string \<Rightarrow> string" where
  "trim s = rev (dropWhile isWhiteSpace (rev (dropWhile isWhiteSpace s)))"

definition startsWith :: "string \<Rightarrow> string \<Rightarrow> bool" where
  "startsWith s q = prefix q s"

definition endsWith :: "string \<Rightarrow> string \<Rightarrow> bool" where
  "endsWith s q = suffix q s"

definition includesStr :: "string \<Rightarrow> string \<Rightarrow> bool" where
  "includesStr s q = sublist q s"

text \<open>
  \<open>s.split(/\s+/)\<close>: the pieces between maximal runs of white space. A string that
  starts or ends with white space gives an empty first or last piece, and the empty
  string gives one empty piece.
\<close>

function splitWords :: "string \<Rightarrow> string list" where
  "splitWords s =
     (let w = takeWhile (\<lambda>c. \<not> isWhiteSpace c) s;
          r = dropWhile (\<lambda>c. \<not> isWhiteSpace c) s
      in if r = [] then [w] else w # splitWords (dropWhile isWhiteSpace r))"
  by pat_completeness auto

lemma dropWhile_space_shorter:
  assumes "dropWhile (\<lambda>c. \<not> isWhiteSpace c) s \<noteq> []"
  shows "length (dropWhile isWhiteSpace (dropWhile (\<lambda>c. \<not> isWhiteSpace c) s)) < length s"
proof -
  let ?r = "dropWhile (\<lambda>c. \<not> isWhiteSpace c) s"
  from assms obtain c cs where r: "?r = c # cs" by (cases ?r) auto
  then have "isWhiteSpace c" using hd_dropWhile [of "\<lambda>c. \<not> isWhiteSpace c" s] by auto
  then have "dropWhile isWhiteSpace ?r = dropWhile isWhiteSpace cs" using r by simp
  moreover have "length (dropWhile isWhiteSpace cs) \<le> length cs" by (rule length_dropWhile_le)
  moreover have "length ?r \<le> length s" by (rule length_dropWhile_le)
  ultimately show ?thesis using r by simp
qed

termination splitWords
  by (relation "measure length") (auto simp: dropWhile_space_shorter)

declare splitWords.simps [simp del]


section \<open>Room-code patterns\<close>

text \<open>
  \<open>matchesPattern\<close> tests the whole query against \<open>^[0-9]+[A-Za-z]*$\<close> and
  \<open>^[A-Za-z]+[0-9]+[A-Za-z]*$\<close>. The classes are disjoint, so the greedy runs are the
  only way to match and backtracking finds nothing more.
\<close>

definition matchesPattern :: "string \<Rightarrow> bool" where
  "matchesPattern query =
     ((takeWhile isDigit query \<noteq> [] \<and>
       dropWhile isLetter (dropWhile isDigit query) = []) \<or>
      (takeWhile isLetter query \<noteq> [] \<and>
       takeWhile isDigit (dropWhile isLetter query) \<noteq> [] \<and>
       dropWhile isLetter (dropWhile isDigit (dropWhile isLetter query)) = []))"

text \<open>
  \<open>text.match(/[0-9]+[A-Za-z]*|[A-Za-z]+[0-9]+[A-Za-z]*/g) || []\<close>: the matcher tries
  the first alternative, then the second, at the current position; a match is recorded
  and the scan goes on behind it, a failure moves the scan one code unit on.
  \<open>matchPatternAt\<close> is the match that starts at the head of the string.
\<close>

definition matchPatternAt :: "string \<Rightarrow> string option" where
  "matchPatternAt s =
     (if takeWhile isDigit s \<noteq> []
      then Some (takeWhile isDigit s @ takeWhile isLetter (dropWhile isDigit s))
      else if takeWhile isLetter s \<noteq> [] \<and> takeWhile isDigit (dropWhile isLetter s) \<noteq> []
      then Some (takeWhile isLetter s @ takeWhile isDigit (dropWhile isLetter s) @
                 takeWhile isLetter (dropWhile isDigit (dropWhile isLetter s)))
      else None)"

lemma matchPatternAt_nonempty: "matchPatternAt s = Some m \<Longrightarrow> m \<noteq> []"
  by (auto simp: matchPatternAt_def split: if_splits)

function matchAllPatterns :: "string \<Rightarrow> string list" where
  "matchAllPatterns s =
     (if s = [] then []
      else case matchPatternAt s of
             Some m \<Rightarrow> m # matchAllPatterns (drop (length m) s)
           | None \<Rightarrow> matchAllPatterns (tl s))"
  by pat_completeness auto

termination matchAllPatterns
proof (relation "measure length")
  show "wf (measure length)" by simp
next
  fix s :: string assume "s \<noteq> []"
  then show "(tl s, s) \<in> measure length" by (cases s) auto
next
  fix s m :: string assume "s \<noteq> []" and "matchPatternAt s = Some m"
  then have "m \<noteq> []" by (auto dest: matchPatternAt_nonempty)
  with \<open>s \<noteq> []\<close> show "(drop (length m) s, s) \<in> measure length" by (cases m) auto
qed

declare matchAllPatterns.simps [simp del]

text \<open>The \<open>for ... of\<close> loop of \<open>getPatternMatchScore\<close>, which returns at the first
  pattern that equals or contains the query.\<close>

fun patternLoop :: "string list \<Rightarrow> string \<Rightarrow> int" where
  "patternLoop [] query = 0"
| "patternLoop (pattern # patterns) query =
     (if toLowerCase pattern = query then 85
      else if includesStr (toLowerCase pattern) query then 75
      else patternLoop patterns query)"

definition getPatternMatchScore :: "string \<Rightarrow> string \<Rightarrow> int" where
  "getPatternMatchScore text query = patternLoop (matchAllPatterns text) query"

definition hasPartialWordMatch :: "string \<Rightarrow> string \<Rightarrow> bool" where
  "hasPartialWordMatch text query =
     list_ex (\<lambda>word.
        if includesStr word query
        then (if length query \<le> 2
              then startsWith word query \<or> endsWith word query \<or> list_ex isDigit query
              else True)
        else False) (splitWords text)"


section \<open>Edit distance\<close>

text \<open>
  \<open>levenshteinDistance\<close> fills \<open>matrix\<close>, an array of arrays, through index
  assignments only, and never asks for a length: the model is the array as the mapping
  from indices to values that it is. A cell that was never assigned reads as
  \<open>undefined\<close> and arithmetic on it gives \<open>NaN\<close>; both are \<open>None\<close> here, and a row that
  was never assigned is a row without cells.
\<close>

type_synonym matrix = "nat \<Rightarrow> nat \<Rightarrow> nat option"

text \<open>\<open>charAt\<close> gives the empty string out of range.\<close>

definition charAt :: "string \<Rightarrow> nat \<Rightarrow> string" where
  "charAt s i = (if i < length s then [s ! i] else [])"

text \<open>\<open>matrix[i] = [i]\<close> for \<open>i\<close> from 0 to \<open>str2.length\<close>.\<close>

definition initRows :: "string \<Rightarrow> matrix" where
  "initRows str2 =
     fold (\<lambda>i matrix. matrix(i := (\<lambda>j. if j = 0 then Some i else None)))
       [0..<Suc (length str2)] (\<lambda>i j. None)"

text \<open>\<open>matrix[0][j] = j\<close> for \<open>j\<close> from 0 to \<open>str1.length\<close>.\<close>

definition initFirstRow :: "string \<Rightarrow> matrix \<Rightarrow> matrix" where
  "initFirstRow str1 matrix0 =
     fold (\<lambda>j matrix. matrix(0 := (matrix 0)(j := Some j))) [0..<Suc (length str1)] matrix0"

text \<open>The value assigned to \<open>matrix[i][j]\<close> in the body of the nested loops.\<close>

definition cellValue :: "string \<Rightarrow> string \<Rightarrow> matrix \<Rightarrow> nat \<Rightarrow> nat \<Rightarrow> nat option" where
  "cellValue str1 str2 matrix i j =
     (if charAt str2 (i - 1) = charAt str1 (j - 1) then matrix (i - 1) (j - 1)
      else (case (matrix (i - 1) (j - 1), matrix i (j - 1), matrix (i - 1) j) of
              (Some a, Some b, Some c) \<Rightarrow> Some (min (a + 1) (min (b + 1) (c + 1)))
            | _ \<Rightarrow> None))"

definition fillRow :: "string \<Rightarrow> string \<Rightarrow> nat \<Rightarrow> matrix \<Rightarrow> matrix" where
  "fillRow str1 str2 i matrix0 =
     fold (\<lambda>j matrix. matrix(i := (matrix i)(j := cellValue str1 str2 matrix i j)))
       [1..<Suc (length str1)] matrix0"

definition fillMatrix :: "string \<Rightarrow> string \<Rightarrow> matrix \<Rightarrow> matrix" where
  "fillMatrix str1 str2 matrix0 =
     fold (fillRow str1 str2) [1..<Suc (length str2)] matrix0"

definition levenshteinDistance :: "string \<Rightarrow> string \<Rightarrow> nat option" where
  "levenshteinDistance str1 str2 =
     fillMatrix str1 str2 (initFirstRow str1 (initRows str2)) (length str2) (length str1)"

section \<open>Fuzzy matching\<close>

text \<open>
  The numbers of \<open>getFuzzyMatchScore\<close> are computed in exact rational arithmetic. A
  distance that is not a number makes the similarity \<open>NaN\<close>, and so does the quotient
  of zero by zero for an empty word and an empty query; \<open>NaN >= 0.7\<close> is false and the
  word is passed over.
\<close>

definition fuzzyWord :: "string \<Rightarrow> string \<Rightarrow> int \<Rightarrow> int" where
  "fuzzyWord query word bestScore =
     (if \<bar>int (length word) - int (length query)\<bar> \<le> 2
      then (case levenshteinDistance word query of
              None \<Rightarrow> bestScore
            | Some distance \<Rightarrow>
                (let maxLength = max (length word) (length query)
                 in if maxLength = 0 then bestScore
                    else (let similarity = (rat_of_int (int maxLength - int distance)) /
                                           rat_of_int (int maxLength)
                          in if similarity \<ge> 7 / 10
                             then max bestScore \<lfloor>similarity * 60\<rfloor>
                             else bestScore)))
      else bestScore)"

definition getFuzzyMatchScore :: "string \<Rightarrow> string \<Rightarrow> int" where
  "getFuzzyMatchScore text query = fold (fuzzyWord query) (splitWords text) 0"


section \<open>Data\<close>

text \<open>A node of the library graph; \<open>search_keywords\<close> may be absent. The engine reads
  \<open>nodes\<close> of the library data only.\<close>

record node =
  node_id :: string
  name :: string
  node_type :: string
  node_floor :: int
  search_keywords :: "string list option"

record libraryData =
  nodes :: "node list"

text \<open>\<open>maxSuggestions\<close> is a count; both configurations of the source set it to 6.\<close>

record config =
  maxSuggestions :: nat

definition defaultConfig :: config where
  "defaultConfig = \<lparr>maxSuggestions = 6\<rparr>"

text \<open>An entry of \<open>results\<close>.\<close>

record scored =
  node :: node
  score :: int

section \<open>Scoring a node\<close>

text \<open>Heuristics 1 to 5, the chain of \<open>if ... else if\<close> on the name.\<close>

definition nameScore :: "string \<Rightarrow> string list \<Rightarrow> string \<Rightarrow> int" where
  "nameScore nameLower nameWords queryLower =
     (if nameLower = queryLower then 100
      else if startsWith nameLower queryLower then 95
      else if list_ex (\<lambda>word. startsWith word queryLower) nameWords then 90
      else if includesStr nameLower queryLower then 85
      else if hasPartialWordMatch nameLower queryLower then 80
      else 0)"

text \<open>Heuristic 6: the loop over the keywords and the fold into the score.\<close>

definition keywordStep :: "string \<Rightarrow> string \<Rightarrow> int \<Rightarrow> int" where
  "keywordStep queryLower keyword keywordScore =
     (let keywordLower = toLowerCase keyword
      in if keywordLower = queryLower then max keywordScore 75
         else if startsWith keywordLower queryLower then max keywordScore 70
         else if includesStr keywordLower queryLower then max keywordScore 65
         else keywordScore)"

definition keywordStage :: "node \<Rightarrow> string \<Rightarrow> int \<Rightarrow> int" where
  "keywordStage n queryLower score0 =
     (case search_keywords n of
        None \<Rightarrow> score0
      | Some keywords \<Rightarrow> max score0 (fold (keywordStep queryLower) keywords 0))"

text \<open>Heuristic 7, for queries of at most three code units that have no score yet.\<close>

definition shortQueryStage :: "string \<Rightarrow> string list \<Rightarrow> string \<Rightarrow> int \<Rightarrow> int" where
  "shortQueryStage nameLower nameWords queryLower score0 =
     (if length queryLower \<le> 3 \<and> score0 = 0
      then (let score1 = (if list_ex (\<lambda>word. includesStr word queryLower) nameWords
                          then 75 else score0)
            in if score1 = 0 \<and> includesStr nameLower queryLower then 70 else score1)
      else score0)"

text \<open>Heuristic 8.\<close>

definition patternStage :: "string \<Rightarrow> string \<Rightarrow> int \<Rightarrow> int" where
  "patternStage nameLower queryLower score0 =
     (if matchesPattern queryLower
      then max score0 (getPatternMatchScore nameLower queryLower)
      else score0)"

text \<open>Heuristic 9.\<close>

definition fuzzyStage :: "string \<Rightarrow> string \<Rightarrow> int \<Rightarrow> int" where
  "fuzzyStage nameLower queryLower score0 =
     (if score0 = 0 \<and> length queryLower \<ge> 3
      then max score0 (getFuzzyMatchScore nameLower queryLower)
      else score0)"

text \<open>The score after heuristics 1 to 8, and the final score of a node: the body of
  the \<open>forEach\<close> of \<open>searchDestinations\<close> for a destination node.\<close>

definition scoreBeforeFuzzy :: "string \<Rightarrow> node \<Rightarrow> int" where
  "scoreBeforeFuzzy queryLower n =
     (let nameLower = toLowerCase (name n);
          nameWords = splitWords nameLower
      in patternStage nameLower queryLower
           (shortQueryStage nameLower nameWords queryLower
              (keywordStage n queryLower
                 (nameScore nameLower nameWords queryLower))))"

definition scoreNode :: "string \<Rightarrow> node \<Rightarrow> int" where
  "scoreNode queryLower n =
     fuzzyStage (toLowerCase (name n)) queryLower (scoreBeforeFuzzy queryLower n)"

section \<open>The ranking engine\<close>

text \<open>The \<open>forEach\<close> over the nodes: only destinations are scored, and a node is pushed
  when its score is positive.\<close>

fun collectResults :: "string \<Rightarrow> node list \<Rightarrow> scored list" where
  "collectResults queryLower [] = []"
| "collectResults queryLower (n # ns) =
     (if node_type n \<noteq> ''destination'' then collectResults queryLower ns
      else if scoreNode queryLower n > 0
      then \<lparr>node = n, score = scoreNode queryLower n\<rparr> # collectResults queryLower ns
      else collectResults queryLower ns)"

text \<open>The comparison function given to \<open>sort\<close>.\<close>

definition compareResults :: "scored \<Rightarrow> scored \<Rightarrow> int" where
  "compareResults a b =
     (if score b \<noteq> score a then score b - score a
      else int (length (name (node a))) - int (length (name (node b))))"

text \<open>
  \<open>Array.prototype.sort\<close> with a comparison function is stable: \<open>a\<close> goes before \<open>b\<close>
  when the function is negative, and elements that compare equal keep their order. The
  model is the stable insertion sort.
\<close>

fun insertBy :: "('a \<Rightarrow> 'a \<Rightarrow> int) \<Rightarrow> 'a \<Rightarrow> 'a list \<Rightarrow> 'a list" where
  "insertBy cmp x [] = [x]"
| "insertBy cmp x (y # ys) = (if cmp x y \<le> 0 then x # y # ys else y # insertBy cmp x ys)"

definition sortBy :: "('a \<Rightarrow> 'a \<Rightarrow> int) \<Rightarrow> 'a list \<Rightarrow> 'a list" where
  "sortBy cmp xs = foldr (insertBy cmp) xs []"

definition searchDestinations :: "config \<Rightarrow> string \<Rightarrow> libraryData option \<Rightarrow> node list" where
  "searchDestinations cfg query lib =
     (case lib of
        None \<Rightarrow> []
      | Some libraryData \<Rightarrow>
          (let queryLower = trim (toLowerCase query);
               results = collectResults queryLower (nodes libraryData)
           in map node (take (maxSuggestions cfg) (sortBy compareResults results))))"

section \<open>The input handlers\<close>

text \<open>
  What a handler does to the suggestion list. \<open>displaySuggestions\<close> hides the list when
  there is nothing to show. \<open>handleSearch\<close> is the handler that calls the engine of
  \<open>search.js\<close>: it tests the raw value of the input field. \<open>handleSearchLegacy\<close> is the
  handler of the older, single-file application: it trims and lower-cases first.
\<close>

datatype uiAction = HideSuggestions | DisplaySuggestions "node list"

definition displaySuggestions :: "node list \<Rightarrow> uiAction" where
  "displaySuggestions suggestions =
     (if length suggestions = 0 then HideSuggestions else DisplaySuggestions suggestions)"

definition handleSearch :: "config \<Rightarrow> string \<Rightarrow> libraryData option \<Rightarrow> uiAction" where
  "handleSearch cfg query lib =
     (if query = [] then HideSuggestions
      else displaySuggestions (searchDestinations cfg query lib))"

definition handleSearchLegacy :: "config \<Rightarrow> string \<Rightarrow> libraryData option \<Rightarrow> uiAction" where
  "handleSearchLegacy cfg val lib =
     (let query = toLowerCase (trim val)
      in if length query = 0 then HideSuggestions
         else displaySuggestions (searchDestinations cfg query lib))"

section \<open>Example nodes\<close>

definition destination :: "string \<Rightarrow> string list option \<Rightarrow> node" where
  "destination nm kws =
     \<lparr>node_id = nm, name = nm, node_type = ''destination'', node_floor = 1,
      search_keywords = kws\<rparr>"

section \<open>Highlighting\<close>

text \<open>
  \<open>escapeRegExp\<close> puts a backslash before each of the fourteen syntax characters of a
  regular expression. \<open>highlightSearchTerm\<close> builds the expression from the source text
  \<open>(\<close>, the escaped term, \<open>)\<close> with the flags \<open>g\<close> and \<open>i\<close>. \<open>compileGroup\<close> reads such a
  source: it gives the characters to match when the source is one group of literal
  characters, each a character without special meaning or a syntax character behind a
  backslash, and \<open>None\<close> when the source holds anything else.

  Under the flag \<open>i\<close> two code units match when \<open>canonicalize\<close>, the upper-case
  mapping, makes them equal. \<open>replace\<close> with the flag \<open>g\<close> scans from the left: a match is
  replaced and the scan resumes behind it, any other code unit is kept. The replacement
  text puts the matched text, \<open>$1\<close>, between the two markers. A group of no characters
  matches the empty string before every code unit and at the end.
\<close>

definition backslash :: char where
  "backslash = CHR 0x5C"

definition isSyntaxChar :: "char \<Rightarrow> bool" where
  "isSyntaxChar c = (c \<in> set ''.*+?^${}()|[]'' \<or> c = backslash)"

definition escapeRegExp :: "string \<Rightarrow> string" where
  "escapeRegExp s = concat (map (\<lambda>c. if isSyntaxChar c then [backslash, c] else [c]) s)"

fun parseLiterals :: "string \<Rightarrow> string option" where
  "parseLiterals [] = Some []"
| "parseLiterals [c] = (if isSyntaxChar c then None else Some [c])"
| "parseLiterals (c # d # cs) =
     (if c = backslash
      then (if isSyntaxChar d then map_option ((#) d) (parseLiterals cs) else None)
      else if isSyntaxChar c then None
      else map_option ((#) c) (parseLiterals (d # cs)))"

definition compileGroup :: "string \<Rightarrow> string option" where
  "compileGroup source =
     (case source of
        [] \<Rightarrow> None
      | c # rest \<Rightarrow>
          if c = CHR ''('' \<and> rest \<noteq> [] \<and> last rest = CHR '')''
          then parseLiterals (butlast rest) else None)"

definition canonicalize :: "char \<Rightarrow> char" where
  "canonicalize c =
     (if (97 \<le> charCode c \<and> charCode c \<le> 122) \<or>
         (224 \<le> charCode c \<and> charCode c \<le> 254 \<and> charCode c \<noteq> 247)
      then char_of (charCode c - 32) else c)"

definition matchesAt :: "string \<Rightarrow> string \<Rightarrow> bool" where
  "matchesAt lits s =
     (length lits \<le> length s \<and>
      map canonicalize (take (length lits) s) = map canonicalize lits)"

datatype piece = Plain char | Marked string

function scanMatches :: "string \<Rightarrow> string \<Rightarrow> piece list" where
  "scanMatches lits s =
     (if s = [] then []
      else if lits \<noteq> [] \<and> matchesAt lits s
      then Marked (take (length lits) s) # scanMatches lits (drop (length lits) s)
      else Plain (hd s) # scanMatches lits (tl s))"
  by pat_completeness auto

termination scanMatches
proof (relation "measure (\<lambda>(lits, s). length s)")
  show "wf (measure (\<lambda>(lits, s). length s))" by simp
next
  fix lits s :: string
  assume "s \<noteq> []" "lits \<noteq> [] \<and> matchesAt lits s"
  then show "((lits, drop (length lits) s), (lits, s)) \<in> measure (\<lambda>(lits, s). length s)"
    by (cases lits) auto
next
  fix lits s :: string
  assume "s \<noteq> []"
  then show "((lits, tl s), (lits, s)) \<in> measure (\<lambda>(lits, s). length s)"
    by (cases s) auto
qed

declare scanMatches.simps [simp del]

definition markOpen :: string where
  "markOpen = ''<mark class='' @ [CHR 0x22] @ ''search-highlight'' @ [CHR 0x22] @ ''>''"

definition markClose :: string where
  "markClose = ''</mark>''"

definition renderPiece :: "piece \<Rightarrow> string" where
  "renderPiece p = (case p of Plain c \<Rightarrow> [c] | Marked m \<Rightarrow> markOpen @ m @ markClose)"

definition replaceMatches :: "string \<Rightarrow> string \<Rightarrow> string" where
  "replaceMatches lits s =
     (if lits = []
      then concat (map (\<lambda>c. markOpen @ markClose @ [c]) s) @ markOpen @ markClose
      else concat (map renderPiece (scanMatches lits s)))"

definition highlightSearchTerm :: "string \<Rightarrow> string \<Rightarrow> string option" where
  "highlightSearchTerm nm searchTerm =
     (if searchTerm = [] then Some nm
      else (case compileGroup (''('' @ escapeRegExp searchTerm @ '')'') of
              None \<Rightarrow> None
            | Some lits \<Rightarrow> Some (replaceMatches lits nm)))"

section \<open>The specification of the edit distance\<close>

text \<open>
  \<open>edit1 a b\<close>: \<open>b\<close> comes from \<open>a\<close> by one insertion, one deletion or one substitution
  of a single character, at any position. \<open>transforms n a b\<close>: \<open>n\<close> such steps lead from
  \<open>a\<close> to \<open>b\<close>. \<open>lev\<close> is the recurrence of the distance, on lists read from the head;
  \<open>cellDist\<close>, \<open>filled\<close> and \<open>fillRowTo\<close> state what the loops have computed so far.
\<close>

fun lev :: "'a list \<Rightarrow> 'a list \<Rightarrow> nat" where
  "lev [] ys = length ys"
| "lev (x # xs) [] = Suc (length xs)"
| "lev (x # xs) (y # ys) =
     (if x = y then lev xs ys
      else 1 + min (lev xs ys) (min (lev (x # xs) ys) (lev xs (y # ys))))"

definition cellDist :: "string \<Rightarrow> string \<Rightarrow> nat \<Rightarrow> nat \<Rightarrow> nat" where
  "cellDist str1 str2 i j = lev (rev (take i str2)) (rev (take j str1))"

definition filled :: "string \<Rightarrow> string \<Rightarrow> matrix \<Rightarrow> nat \<Rightarrow> bool" where
  "filled str1 str2 m r =
     ((\<forall>i \<le> length str2. m i 0 = Some (cellDist str1 str2 i 0)) \<and>
      (\<forall>i < r. \<forall>j \<le> length str1. m i j = Some (cellDist str1 str2 i j)))"

definition fillRowTo :: "string \<Rightarrow> string \<Rightarrow> nat \<Rightarrow> nat \<Rightarrow> matrix \<Rightarrow> matrix" where
  "fillRowTo str1 str2 i k m =
     fold (\<lambda>j matrix. matrix(i := (matrix i)(j := cellValue str1 str2 matrix i j)))
       [1..<Suc k] m"

definition edit1 :: "'a list \<Rightarrow> 'a list \<Rightarrow> bool" where
  "edit1 a b =
     ((\<exists>p q c. a = p @ q \<and> b = p @ c # q) \<or>
      (\<exists>p q c. a = p @ c # q \<and> b = p @ q) \<or>
      (\<exists>p q c d. a = p @ c # q \<and> b = p @ d # q))"

primrec transforms :: "nat \<Rightarrow> 'a list \<Rightarrow> 'a list \<Rightarrow> bool" where
  "transforms 0 a b = (a = b)"
| "transforms (Suc n) a b = (\<exists>m. edit1 a m \<and> transforms n m b)"

section \<open>The engine without heuristic 7, and the heuristics one by one\<close>

text \<open>
  \<open>scoreNodeNo7\<close> and \<open>searchDestinationsNo7\<close> are \<open>scoreNode\<close> and \<open>searchDestinations\<close>
  with the short-query stage taken out. \<open>heuristicScores\<close> lists what each of the nine
  heuristics gives for a node on its own, 0 when it does not apply: exact name, name
  starts with the query, a word starts with it, name contains it, partial word match,
  keywords, short query, room-code pattern, fuzzy match.
\<close>

definition scoreBeforeFuzzyNo7 :: "string \<Rightarrow> node \<Rightarrow> int" where
  "scoreBeforeFuzzyNo7 queryLower n =
     (let nameLower = toLowerCase (name n);
          nameWords = splitWords nameLower
      in patternStage nameLower queryLower
           (keywordStage n queryLower
              (nameScore nameLower nameWords queryLower)))"

definition scoreNodeNo7 :: "string \<Rightarrow> node \<Rightarrow> int" where
  "scoreNodeNo7 queryLower n =
     fuzzyStage (toLowerCase (name n)) queryLower (scoreBeforeFuzzyNo7 queryLower n)"

fun collectResultsNo7 :: "string \<Rightarrow> node list \<Rightarrow> scored list" where
  "collectResultsNo7 queryLower [] = []"
| "collectResultsNo7 queryLower (n # ns) =
     (if node_type n \<noteq> ''destination'' then collectResultsNo7 queryLower ns
      else if scoreNodeNo7 queryLower n > 0
      then \<lparr>node = n, score = scoreNodeNo7 queryLower n\<rparr> # collectResultsNo7 queryLower ns
      else collectResultsNo7 queryLower ns)"

definition searchDestinationsNo7 :: "config \<Rightarrow> string \<Rightarrow> libraryData option \<Rightarrow> node list" where
  "searchDestinationsNo7 cfg query lib =
     (case lib of
        None \<Rightarrow> []
      | Some libraryData \<Rightarrow>
          (let queryLower = trim (toLowerCase query);
               results = collectResultsNo7 queryLower (nodes libraryData)
           in map node (take (maxSuggestions cfg) (sortBy compareResults results))))"

definition keywordValue :: "string \<Rightarrow> string \<Rightarrow> int" where
  "keywordValue q keyword =
     (if toLowerCase keyword = q then 75
      else if startsWith (toLowerCase keyword) q then 70
      else if includesStr (toLowerCase keyword) q then 65
      else 0)"

definition keywordScore :: "string \<Rightarrow> node \<Rightarrow> int" where
  "keywordScore q n =
     (case search_keywords n of
        None \<Rightarrow> 0
      | Some keywords \<Rightarrow> Max (set (0 # map (keywordValue q) keywords)))"

definition heuristicScores :: "string \<Rightarrow> node \<Rightarrow> int list" where
  "heuristicScores q n =
     (let nameLower = toLowerCase (name n); nameWords = splitWords nameLower in
      [if nameLower = q then 100 else 0,
       if startsWith nameLower q then 95 else 0,
       if list_ex (\<lambda>word. startsWith word q) nameWords then 90 else 0,
       if includesStr nameLower q then 85 else 0,
       if hasPartialWordMatch nameLower q then 80 else 0,
       keywordScore q n,
       if length q \<le> 3
       then (if list_ex (\<lambda>word. includesStr word q) nameWords then 75
             else if includesStr nameLower q then 70 else 0)
       else 0,
       if matchesPattern q then getPatternMatchScore nameLower q else 0,
       if 3 \<le> length q then getFuzzyMatchScore nameLower q else 0])"

section \<open>The ranking, stated on nodes\<close>

text \<open>
  \<open>sortKey\<close> is the key that \<open>compareResults\<close> compares: the score, descending, then the
  length of the name. \<open>finalScore\<close> is the score of a node for a raw query,
  \<open>matchingNodes\<close> the destinations with a positive score in load order, and
  \<open>rankedNodes\<close> the nodes of the sorted results before the truncation. \<open>rooms20\<close> is an
  example library of twenty rooms.
\<close>

definition sortKey :: "scored \<Rightarrow> int \<times> nat" where
  "sortKey r = (- score r, length (name (node r)))"

definition finalScore :: "string \<Rightarrow> node \<Rightarrow> int" where
  "finalScore query n = scoreNode (trim (toLowerCase query)) n"

definition matchingNodes :: "string \<Rightarrow> libraryData \<Rightarrow> node list" where
  "matchingNodes query lib =
     filter (\<lambda>n. node_type n = ''destination'' \<and> 0 < finalScore query n) (nodes lib)"

definition rankedNodes :: "string \<Rightarrow> libraryData \<Rightarrow> node list" where
  "rankedNodes query lib =
     map node (sortBy compareResults (collectResults (trim (toLowerCase query)) (nodes lib)))"

definition rooms20 :: libraryData where
  "rooms20 = \<lparr>nodes = map (\<lambda>s. destination (''Room '' @ s) None)
     [''10'', ''1'', ''11'', ''2'', ''12'', ''3'', ''13'', ''4'', ''14'', ''5'',
      ''15'', ''6'', ''16'', ''7'', ''17'', ''8'', ''18'', ''9'', ''19'', ''20'']\<rparr>"

section \<open>The fuzzy score, as a formula\<close>

text \<open>
  \<open>similarity\<close> is one minus the edit distance over the larger of the two lengths; it
  is not a number when both strings are empty. A word is a candidate when its length is
  within 2 of the query's and its similarity is at least 0.70; its score is the floor of
  60 times its similarity. \<open>fuzzySpec\<close> is the best score among the candidates of a
  text, 0 when there is none.
\<close>

definition similarity :: "string \<Rightarrow> string \<Rightarrow> rat option" where
  "similarity word query =
     (if max (length word) (length query) = 0 then None
      else Some (1 - rat_of_nat (lev word query) / rat_of_nat (max (length word) (length query))))"

definition fuzzyCandidate :: "string \<Rightarrow> string \<Rightarrow> bool" where
  "fuzzyCandidate query word =
     (\<bar>int (length word) - int (length query)\<bar> \<le> 2 \<and>
      (case similarity word query of None \<Rightarrow> False | Some s \<Rightarrow> 7 / 10 \<le> s))"

definition wordScore :: "string \<Rightarrow> string \<Rightarrow> int" where
  "wordScore query word =
     (case similarity word query of None \<Rightarrow> 0 | Some s \<Rightarrow> \<lfloor>s * 60\<rfloor>)"

definition fuzzySpec :: "string \<Rightarrow> string \<Rightarrow> int" where
  "fuzzySpec text query =
     Max (set (0 # map (wordScore query) (filter (fuzzyCandidate query) (splitWords text))))"

section \<open>Occurrences and matches\<close>

text \<open>
  \<open>pieceText\<close> is the text of the name that a piece stands for, \<open>markedStarts\<close> the
  offsets in the name at which the wrapped pieces start, and \<open>occursAt t s i\<close> says that
  the term \<open>t\<close> occurs in \<open>s\<close> at offset \<open>i\<close>, case-insensitively.
\<close>

definition pieceText :: "piece \<Rightarrow> string" where
  "pieceText p = (case p of Plain c \<Rightarrow> [c] | Marked m \<Rightarrow> m)"

fun starts :: "nat \<Rightarrow> piece list \<Rightarrow> nat list" where
  "starts off [] = []"
| "starts off (Plain c # ps) = starts (Suc off) ps"
| "starts off (Marked m # ps) = off # starts (off + length m) ps"

definition markedStarts :: "string \<Rightarrow> string \<Rightarrow> nat list" where
  "markedStarts t s = starts 0 (scanMatches t s)"

definition occursAt :: "string \<Rightarrow> string \<Rightarrow> nat \<Rightarrow> bool" where
  "occursAt t s i = (t \<noteq> [] \<and> matchesAt t (drop i s))"

section \<open>Properties\<close>

subsection \<open>The edit distance\<close>

text \<open>The cells of the matrix are the distances of the prefixes: after the loops,
  \<open>matrix[i][j]\<close> is \<open>cellDist str1 str2 i j\<close>.\<close>

lemma lev_Nil2 [simp]: "lev xs [] = length xs"
  by (cases xs) auto

lemma cellDist_0_left: "j \<le> length str1 \<Longrightarrow> cellDist str1 str2 0 j = j"
  by (simp add: cellDist_def)

lemma cellDist_0_right: "i \<le> length str2 \<Longrightarrow> cellDist str1 str2 i 0 = i"
  by (simp add: cellDist_def)

lemma rev_take_Suc: "i < length s \<Longrightarrow> rev (take (Suc i) s) = s ! i # rev (take i s)"
  by (simp add: take_Suc_conv_app_nth)

lemma cellDist_Suc:
  assumes "i < length str2" "j < length str1"
  shows "cellDist str1 str2 (Suc i) (Suc j) =
     (if str2 ! i = str1 ! j then cellDist str1 str2 i j
      else 1 + min (cellDist str1 str2 i j)
                   (min (cellDist str1 str2 (Suc i) j) (cellDist str1 str2 i (Suc j))))"
  using assms by (simp add: cellDist_def rev_take_Suc)

lemma fold_upd_upt:
  "fold (\<lambda>i m. m(i := f i)) [0..<n] m0 = (\<lambda>i. if i < n then f i else m0 i)"
  by (induction n) (auto simp: fun_eq_iff)

lemma initRows_apply:
  "initRows str2 i j = (if i \<le> length str2 \<and> j = 0 then Some i else None)"
  unfolding initRows_def fold_upd_upt by auto

lemma fold_row0_upt:
  "fold (\<lambda>j m. m(0 := (m 0)(j := Some j))) [0..<n] m0 =
     (\<lambda>i j. if i = 0 \<and> j < n then Some j else m0 i j)"
  by (induction n) (auto simp: fun_eq_iff)

lemma initFirstRow_apply:
  "initFirstRow str1 m0 i j = (if i = 0 \<and> j \<le> length str1 then Some j else m0 i j)"
  unfolding initFirstRow_def fold_row0_upt by auto

lemma filled_init: "filled str1 str2 (initFirstRow str1 (initRows str2)) 1"
  by (auto simp: filled_def initFirstRow_apply initRows_apply cellDist_0_left cellDist_0_right)

lemma cellValue_correct:
  assumes "1 \<le> i" "i \<le> length str2" "1 \<le> j" "j \<le> length str1"
    and "m (i - 1) (j - 1) = Some (cellDist str1 str2 (i - 1) (j - 1))"
    and "m i (j - 1) = Some (cellDist str1 str2 i (j - 1))"
    and "m (i - 1) j = Some (cellDist str1 str2 (i - 1) j)"
  shows "cellValue str1 str2 m i j = Some (cellDist str1 str2 i j)"
proof -
  obtain i' j' where ij: "i = Suc i'" "j = Suc j'" using assms(1,3) by (cases i; cases j) auto
  then have lt: "i' < length str2" "j' < length str1" using assms(2,4) by auto
  show ?thesis
    using assms(5-7) lt unfolding ij
    by (simp add: cellValue_def charAt_def cellDist_Suc [OF lt])
qed

lemma fillRowTo_0: "fillRowTo str1 str2 i 0 m = m"
  by (simp add: fillRowTo_def)

lemma fillRowTo_Suc:
  "fillRowTo str1 str2 i (Suc k) m =
     (fillRowTo str1 str2 i k m)
       (i := (fillRowTo str1 str2 i k m i)
               (Suc k := cellValue str1 str2 (fillRowTo str1 str2 i k m) i (Suc k)))"
proof -
  have "[1..<Suc (Suc k)] = [1..<Suc k] @ [Suc k]"
    by (rule upt_Suc_append) simp
  then show ?thesis
    unfolding fillRowTo_def by (simp del: upt_Suc)
qed

lemma fillRow_fillRowTo: "fillRow str1 str2 i m = fillRowTo str1 str2 i (length str1) m"
  by (simp add: fillRow_def fillRowTo_def)

lemma fillRowTo_correct:
  assumes f: "filled str1 str2 m i" and i: "1 \<le> i" "i \<le> length str2"
  shows "k \<le> length str1 \<Longrightarrow>
     (\<forall>i'. i' \<noteq> i \<longrightarrow> fillRowTo str1 str2 i k m i' = m i') \<and>
     (\<forall>j \<le> k. fillRowTo str1 str2 i k m i j = Some (cellDist str1 str2 i j)) \<and>
     (\<forall>j > k. fillRowTo str1 str2 i k m i j = m i j)"
proof (induction k)
  case 0
  then show ?case using f i by (simp add: filled_def fillRowTo_0)
next
  case (Suc k)
  let ?m = "fillRowTo str1 str2 i k m"
  from Suc have IH: "\<forall>i'. i' \<noteq> i \<longrightarrow> ?m i' = m i'"
      "\<forall>j \<le> k. ?m i j = Some (cellDist str1 str2 i j)" "\<forall>j > k. ?m i j = m i j"
    by simp_all
  have k: "Suc k \<le> length str1" using Suc.prems .
  have prev: "i - 1 < i" "i - 1 \<noteq> i" using i by auto
  have a: "?m (i - 1) (Suc k - 1) = Some (cellDist str1 str2 (i - 1) (Suc k - 1))"
    using IH(1) prev f k by (simp add: filled_def)
  have b: "?m i (Suc k - 1) = Some (cellDist str1 str2 i (Suc k - 1))"
    using IH(2) by simp
  have c: "?m (i - 1) (Suc k) = Some (cellDist str1 str2 (i - 1) (Suc k))"
    using IH(1) prev f k by (simp add: filled_def)
  have v: "cellValue str1 str2 ?m i (Suc k) = Some (cellDist str1 str2 i (Suc k))"
    by (rule cellValue_correct [OF i(1) i(2) _ k a b c]) simp
  show ?case
    unfolding fillRowTo_Suc using IH v by (auto simp: le_Suc_eq)
qed

lemma fillRow_filled:
  assumes "filled str1 str2 m i" "1 \<le> i" "i \<le> length str2"
  shows "filled str1 str2 (fillRow str1 str2 i m) (Suc i)"
proof -
  from fillRowTo_correct [OF assms, of "length str1"]
  have *: "\<forall>i'. i' \<noteq> i \<longrightarrow> fillRow str1 str2 i m i' = m i'"
    "\<forall>j \<le> length str1. fillRow str1 str2 i m i j = Some (cellDist str1 str2 i j)"
    by (simp_all add: fillRow_fillRowTo)
  show ?thesis
    unfolding filled_def
  proof (intro conjI allI impI)
    fix i' assume "i' \<le> length str2"
    then show "fillRow str1 str2 i m i' 0 = Some (cellDist str1 str2 i' 0)"
      using * assms(1) by (cases "i' = i") (auto simp: filled_def)
  next
    fix i' j assume "i' < Suc i" "j \<le> length str1"
    then show "fillRow str1 str2 i m i' j = Some (cellDist str1 str2 i' j)"
      using * assms(1) by (cases "i' = i") (auto simp: filled_def)
  qed
qed

lemma fillMatrix_partial:
  assumes "filled str1 str2 m 1"
  shows "r \<le> length str2 \<Longrightarrow> filled str1 str2 (fold (fillRow str1 str2) [1..<Suc r] m) (Suc r)"
proof (induction r)
  case 0
  then show ?case using assms by simp
next
  case (Suc r)
  then have "filled str1 str2 (fold (fillRow str1 str2) [1..<Suc r] m) (Suc r)"
    by (simp del: upt_Suc)
  from fillRow_filled [OF this _ Suc.prems]
  have "filled str1 str2 (fillRow str1 str2 (Suc r) (fold (fillRow str1 str2) [1..<Suc r] m)) (Suc (Suc r))"
    by simp
  moreover have "[1..<Suc (Suc r)] = [1..<Suc r] @ [Suc r]"
    by (rule upt_Suc_append) simp
  ultimately show ?case by (simp del: upt_Suc)
qed

lemma levenshteinDistance_lev [code]:
  "levenshteinDistance str1 str2 = Some (lev (rev str2) (rev str1))"
proof -
  have "filled str1 str2 (fillMatrix str1 str2 (initFirstRow str1 (initRows str2))) (Suc (length str2))"
    unfolding fillMatrix_def by (rule fillMatrix_partial [OF filled_init]) simp
  then show ?thesis
    by (simp add: levenshteinDistance_def filled_def cellDist_def)
qed

lemma lev_sym: "lev xs ys = lev ys xs"
  by (induction xs ys rule: lev.induct) (auto simp: min.commute min.left_commute)

lemma lev_refl [simp]: "lev xs xs = 0"
  by (induction xs) auto

lemma lev_head:
  "lev (x # xs) ys \<le> Suc (lev xs ys) \<and> lev xs ys \<le> Suc (lev xs (y # ys))"
proof (induction "length xs + length ys" arbitrary: xs ys x y rule: less_induct)
  case less
  have B: "lev (x # xs) ys \<le> Suc (lev xs ys)"
  proof (cases ys)
    case Nil
    then show ?thesis by simp
  next
    case (Cons y' ys')
    have "lev xs ys' \<le> Suc (lev xs (y' # ys'))"
      using less [of xs ys'] Cons by simp
    then show ?thesis using Cons by (simp add: min_def)
  qed
  have A: "lev xs ys \<le> Suc (lev xs (y # ys))"
  proof (cases xs)
    case Nil
    then show ?thesis by simp
  next
    case (Cons x' xs')
    have b: "lev (x' # xs') ys \<le> Suc (lev xs' ys)"
      using less [of xs' ys] Cons by simp
    have a: "lev xs' ys \<le> Suc (lev xs' (y # ys))"
      using less [of xs' ys] Cons by simp
    show ?thesis using Cons a b by (auto simp: min_def)
  qed
  from A B show ?case by simp
qed

lemma lev_drop_left: "lev (x # xs) ys \<le> Suc (lev xs ys)"
  by (rule lev_head [THEN conjunct1])

lemma lev_add_right: "lev xs ys \<le> Suc (lev xs (y # ys))"
  by (rule lev_head [THEN conjunct2])

lemma lev_add_left: "lev xs ys \<le> Suc (lev (x # xs) ys)"
  using lev_add_right [of ys xs x] by (simp add: lev_sym)

lemma lev_subst_left: "lev (c # s) b \<le> Suc (lev (d # s) b)"
proof (induction b)
  case Nil
  then show ?case by simp
next
  case (Cons y b)
  have 1: "lev s b \<le> Suc (lev (d # s) b)" by (rule lev_add_left)
  have 2: "lev s b \<le> Suc (lev s (y # b))" by (rule lev_add_right)
  show ?case using Cons 1 2 by (simp add: min_def)
qed

lemma lev_cong_step:
  assumes "\<And>b. lev a b \<le> Suc (lev a' b)"
  shows "lev (x # a) b \<le> Suc (lev (x # a') b)"
proof (induction b)
  case Nil
  from assms [of "[]"] show ?case by simp
next
  case (Cons y b)
  from assms [of b] assms [of "y # b"] Cons show ?case by (simp add: min_def)
qed

lemma lev_prefix_step:
  assumes "\<And>b. lev s b \<le> Suc (lev t b)"
  shows "lev (p @ s) b \<le> Suc (lev (p @ t) b)"
proof (induction p arbitrary: b)
  case Nil
  then show ?case using assms by simp
next
  case (Cons x p)
  show ?case using lev_cong_step [of "p @ s" "p @ t" x b] Cons by simp
qed

lemma lev_edit1: "edit1 a a' \<Longrightarrow> lev a b \<le> Suc (lev a' b)"
  unfolding edit1_def
  by (auto intro!: lev_prefix_step lev_add_left lev_drop_left lev_subst_left)

lemma transforms_lower: "transforms n a b \<Longrightarrow> lev a b \<le> n"
proof (induction n arbitrary: a)
  case 0
  then show ?case by simp
next
  case (Suc n)
  then obtain m where "edit1 a m" "transforms n m b" by auto
  then have "lev a b \<le> Suc (lev m b)" "lev m b \<le> n" using Suc.IH lev_edit1 by auto
  then show ?case by simp
qed

lemma edit1_Cons: "edit1 a b \<Longrightarrow> edit1 (x # a) (x # b)"
  unfolding edit1_def
  by (elim disjE exE conjE) (metis append_Cons)+

lemma transforms_Cons: "transforms n a b \<Longrightarrow> transforms n (x # a) (x # b)"
  by (induction n arbitrary: a) (auto intro: edit1_Cons)

lemma edit1_insert_head: "edit1 s (c # s)"
  unfolding edit1_def by (metis append_Nil)

lemma edit1_delete_head: "edit1 (c # s) s"
  unfolding edit1_def by (metis append_Nil)

lemma edit1_subst_head: "edit1 (c # s) (d # s)"
  unfolding edit1_def by (metis append_Nil)

lemma transforms_step: "edit1 a m \<Longrightarrow> transforms n m b \<Longrightarrow> transforms (Suc n) a b"
  by auto

lemma transforms_insert_all: "transforms (length ys) [] ys"
proof (induction ys)
  case Nil
  then show ?case by simp
next
  case (Cons y ys)
  show ?case
    using transforms_step [OF edit1_insert_head [of "[]" y] transforms_Cons [OF Cons, of y]]
    by simp
qed

lemma transforms_delete_all: "transforms (length xs) xs []"
proof (induction xs)
  case Nil
  then show ?case by simp
next
  case (Cons x xs)
  show ?case
    using transforms_step [OF edit1_delete_head [of x xs] Cons] by simp
qed

lemma transforms_lev: "transforms (lev a b) a b"
proof (induction a b rule: lev.induct)
  case (1 ys)
  then show ?case using transforms_insert_all by simp
next
  case (2 x xs)
  then show ?case using transforms_delete_all [of "x # xs"] by simp
next
  case (3 x xs y ys)
  show ?case
  proof (cases "x = y")
    case True
    then show ?thesis using 3 by (simp add: transforms_Cons)
  next
    case False
    let ?d = "min (lev xs ys) (min (lev (x # xs) ys) (lev xs (y # ys)))"
    have "?d = lev xs ys \<or> ?d = lev (x # xs) ys \<or> ?d = lev xs (y # ys)"
      unfolding min_def by simp
    then consider "?d = lev xs ys" | "?d = lev (x # xs) ys" | "?d = lev xs (y # ys)"
      by blast
    then have "transforms (Suc ?d) (x # xs) (y # ys)"
    proof cases
      case 1
      have "transforms (lev xs ys) (y # xs) (y # ys)"
        using 3 False by (simp add: transforms_Cons)
      from transforms_step [OF edit1_subst_head this] 1 show ?thesis by simp
    next
      case 2
      have "transforms (lev (x # xs) ys) (y # x # xs) (y # ys)"
        using 3 False by (simp add: transforms_Cons)
      from transforms_step [OF edit1_insert_head this] 2 show ?thesis by simp
    next
      case 3
      have "transforms (lev xs (y # ys)) xs (y # ys)"
        using "3.IH" False by simp
      from transforms_step [OF edit1_delete_head this] 3 show ?thesis by simp
    qed
    then show ?thesis using False by simp
  qed
qed

lemma edit1_rev: "edit1 a b \<Longrightarrow> edit1 (rev a) (rev b)"
  unfolding edit1_def
proof (elim disjE exE conjE)
  fix p q c assume "a = p @ q" "b = p @ c # q"
  then have "rev a = rev q @ rev p \<and> rev b = rev q @ c # rev p" by simp
  then show "(\<exists>p q c. rev a = p @ q \<and> rev b = p @ c # q) \<or>
             (\<exists>p q c. rev a = p @ c # q \<and> rev b = p @ q) \<or>
             (\<exists>p q c d. rev a = p @ c # q \<and> rev b = p @ d # q)" by blast
next
  fix p q c assume "a = p @ c # q" "b = p @ q"
  then have "rev a = rev q @ c # rev p \<and> rev b = rev q @ rev p" by simp
  then show "(\<exists>p q c. rev a = p @ q \<and> rev b = p @ c # q) \<or>
             (\<exists>p q c. rev a = p @ c # q \<and> rev b = p @ q) \<or>
             (\<exists>p q c d. rev a = p @ c # q \<and> rev b = p @ d # q)" by blast
next
  fix p q c d assume "a = p @ c # q" "b = p @ d # q"
  then have "rev a = rev q @ c # rev p \<and> rev b = rev q @ d # rev p" by simp
  then show "(\<exists>p q c. rev a = p @ q \<and> rev b = p @ c # q) \<or>
             (\<exists>p q c. rev a = p @ c # q \<and> rev b = p @ q) \<or>
             (\<exists>p q c d. rev a = p @ c # q \<and> rev b = p @ d # q)" by blast
qed

lemma transforms_rev: "transforms n a b \<Longrightarrow> transforms n (rev a) (rev b)"
proof (induction n arbitrary: a)
  case 0
  then show ?case by simp
next
  case (Suc n)
  then obtain m where "edit1 a m" "transforms n m b" by auto
  then have "edit1 (rev a) (rev m)" "transforms n (rev m) (rev b)"
    using Suc.IH edit1_rev by auto
  then show ?case by auto
qed

lemma transforms_rev_iff: "transforms n (rev a) (rev b) = transforms n a b"
  using transforms_rev [of n a b] transforms_rev [of n "rev a" "rev b"] by auto

text \<open>
  C8. \<open>levenshteinDistance a b\<close> always returns a number \<open>d\<close>, a natural number:
  \<open>a\<close> can be transformed into \<open>b\<close> by \<open>d\<close> insertions, deletions and substitutions
  of single characters, at any positions, and by no fewer.
\<close>

theorem levenshteinDistance_minimal:
  "\<exists>d. levenshteinDistance a b = Some d \<and> transforms d a b \<and>
        (\<forall>n. transforms n a b \<longrightarrow> d \<le> n)"
proof -
  let ?d = "lev (rev a) (rev b)"
  have 1: "levenshteinDistance a b = Some ?d"
    by (simp add: levenshteinDistance_lev lev_sym)
  have 2: "transforms ?d a b"
    using transforms_lev [of "rev a" "rev b"] by (simp add: transforms_rev_iff)
  have 3: "transforms n a b \<Longrightarrow> ?d \<le> n" for n
    using transforms_lower [of n "rev a" "rev b"] by (simp add: transforms_rev_iff)
  from 1 2 3 show ?thesis by blast
qed

theorem levenshteinDistance_minimal_witness:
  "levenshteinDistance ''libary'' ''library'' = Some 1 \<and> transforms 1 ''libary'' ''library''"
proof -
  have "edit1 ''libary'' ''library''"
    unfolding edit1_def by (rule disjI1, rule exI [of _ "''lib''"], rule exI [of _ "''ary''"]) simp
  then have t: "transforms 1 ''libary'' ''library''" by simp
  from levenshteinDistance_minimal [of "''libary''" "''library''"]
  obtain d where d: "levenshteinDistance ''libary'' ''library'' = Some d"
      "transforms d ''libary'' ''library''"
      "\<forall>n. transforms n ''libary'' ''library'' \<longrightarrow> d \<le> n"
    by blast
  from d(3) t have "d \<le> 1" by blast
  moreover have "d \<noteq> 0" using d(2) by (cases d) auto
  ultimately have "d = 1" by simp
  with d(1) t show ?thesis by simp
qed

subsection \<open>The empty query\<close>

text \<open>
  C1. The specification wants the empty sequence for a query that is empty after
  trimming. The engine has no such test: the empty string is a prefix of every name, so
  every destination scores 95 (or 100 when its name is empty). For the empty query, and
  for the query of three spaces, with the one destination Library, the engine returns
  that node; the handler that calls it displays it for the three spaces, while the
  older handler hides the list.
\<close>

theorem empty_query_returns_nodes:
  "searchDestinations defaultConfig []
     (Some \<lparr>nodes = [destination ''Library'' None]\<rparr>) = [destination ''Library'' None] \<and>
   searchDestinations defaultConfig ''   ''
     (Some \<lparr>nodes = [destination ''Library'' None]\<rparr>) = [destination ''Library'' None] \<and>
   handleSearch defaultConfig ''   ''
     (Some \<lparr>nodes = [destination ''Library'' None]\<rparr>) =
       DisplaySuggestions [destination ''Library'' None] \<and>
   handleSearchLegacy defaultConfig ''   ''
     (Some \<lparr>nodes = [destination ''Library'' None]\<rparr>) = HideSuggestions"
  by code_simp

subsection \<open>The pattern heuristic\<close>

text \<open>
  C3. The specification wants 85 when a pattern of the name equals the query, wherever
  it stands among the patterns. The loop returns at the first pattern that contains the
  query: in room 12b 2b the patterns are 12b and 2b, the first contains the query 2b
  without being equal to it, and the result is 75; with the two patterns in the other
  order it is 85.
\<close>

theorem pattern_score_depends_on_order:
  "matchesPattern ''2b'' \<and>
   matchAllPatterns ''room 12b 2b'' = [''12b'', ''2b''] \<and>
   getPatternMatchScore ''room 12b 2b'' ''2b'' = 75 \<and>
   getPatternMatchScore ''room 2b 12b'' ''2b'' = 85"
  by code_simp

subsection \<open>The gate of the fuzzy heuristic\<close>

lemma fuzzyWord_nonneg: "0 \<le> b \<Longrightarrow> 0 \<le> fuzzyWord q w b"
  by (auto simp: fuzzyWord_def Let_def split: option.splits)

lemma fold_fuzzyWord_nonneg: "0 \<le> b \<Longrightarrow> 0 \<le> fold (fuzzyWord q) ws b"
  by (induction ws arbitrary: b) (auto simp: fuzzyWord_nonneg)

lemma getFuzzyMatchScore_nonneg: "0 \<le> getFuzzyMatchScore t q"
  by (simp add: getFuzzyMatchScore_def fold_fuzzyWord_nonneg)

text \<open>
  C6. The fuzzy heuristic leaves the score of heuristics 1 to 8 as it is when that score
  is not 0 or the query is shorter than 3; so when the final score differs from it, the
  score was 0, the query has at least 3 code units, and the final score is the fuzzy
  score.
\<close>

theorem fuzzy_only_without_score:
  "(scoreBeforeFuzzy q n \<noteq> 0 \<or> length q < 3 \<longrightarrow> scoreNode q n = scoreBeforeFuzzy q n) \<and>
   (scoreNode q n \<noteq> scoreBeforeFuzzy q n \<longrightarrow>
      scoreBeforeFuzzy q n = 0 \<and> 3 \<le> length q \<and>
      scoreNode q n = getFuzzyMatchScore (toLowerCase (name n)) q)"
  using getFuzzyMatchScore_nonneg [of "toLowerCase (name n)" q]
  by (auto simp: scoreNode_def fuzzyStage_def)

theorem fuzzy_only_without_score_witness:
  "scoreBeforeFuzzy ''libary'' (destination ''Library Commons'' (Some [''my libary''])) = 65 \<and>
   getFuzzyMatchScore (toLowerCase ''Library Commons'') ''libary'' = 51 \<and>
   scoreNode ''libary'' (destination ''Library Commons'' (Some [''my libary''])) = 65 \<and>
   scoreBeforeFuzzy ''libary'' (destination ''Library Commons'' None) = 0 \<and>
   scoreNode ''libary'' (destination ''Library Commons'' None) = 51"
proof -
  have a: "scoreBeforeFuzzy ''libary'' (destination ''Library Commons'' (Some [''my libary''])) = 65"
    by code_simp
  have b: "getFuzzyMatchScore (toLowerCase ''Library Commons'') ''libary'' = 51"
    by code_simp
  have c: "scoreBeforeFuzzy ''libary'' (destination ''Library Commons'' None) = 0"
    by code_simp
  have d: "name (destination ''Library Commons'' None) = ''Library Commons''"
    by (simp add: destination_def)
  have e: "scoreNode ''libary'' (destination ''Library Commons'' None) \<noteq> 0"
    by code_simp
  from fuzzy_only_without_score [of "''libary''" "destination ''Library Commons'' (Some [''my libary''])"] a
  have f: "scoreNode ''libary'' (destination ''Library Commons'' (Some [''my libary''])) = 65"
    by simp
  from fuzzy_only_without_score [of "''libary''" "destination ''Library Commons'' None"] c e
  have "scoreNode ''libary'' (destination ''Library Commons'' None) =
        getFuzzyMatchScore (toLowerCase (name (destination ''Library Commons'' None))) ''libary''"
    by simp
  with b d have g: "scoreNode ''libary'' (destination ''Library Commons'' None) = 51"
    by simp
  from a b c f g show ?thesis by simp
qed

subsection \<open>Scores\<close>

lemma splitWords_last:
  assumes "dropWhile (\<lambda>c. \<not> isWhiteSpace c) s = []"
  shows "splitWords s = [takeWhile (\<lambda>c. \<not> isWhiteSpace c) s]"
proof -
  have "splitWords s =
     (let w = takeWhile (\<lambda>c. \<not> isWhiteSpace c) s;
          r = dropWhile (\<lambda>c. \<not> isWhiteSpace c) s
      in if r = [] then [w] else w # splitWords (dropWhile isWhiteSpace r))"
    by (rule splitWords.simps)
  also have "\<dots> = [takeWhile (\<lambda>c. \<not> isWhiteSpace c) s]"
    unfolding Let_def using assms by (rule if_P)
  finally show ?thesis .
qed

lemma splitWords_more:
  assumes "dropWhile (\<lambda>c. \<not> isWhiteSpace c) s \<noteq> []"
  shows "splitWords s = takeWhile (\<lambda>c. \<not> isWhiteSpace c) s #
      splitWords (dropWhile isWhiteSpace (dropWhile (\<lambda>c. \<not> isWhiteSpace c) s))"
proof -
  have "splitWords s =
     (let w = takeWhile (\<lambda>c. \<not> isWhiteSpace c) s;
          r = dropWhile (\<lambda>c. \<not> isWhiteSpace c) s
      in if r = [] then [w] else w # splitWords (dropWhile isWhiteSpace r))"
    by (rule splitWords.simps)
  also have "\<dots> = takeWhile (\<lambda>c. \<not> isWhiteSpace c) s #
      splitWords (dropWhile isWhiteSpace (dropWhile (\<lambda>c. \<not> isWhiteSpace c) s))"
    unfolding Let_def using assms by (rule if_not_P)
  finally show ?thesis .
qed

lemma sublist_trans: "sublist a b \<Longrightarrow> sublist b c \<Longrightarrow> sublist a c"
proof -
  assume "sublist a b" "sublist b c"
  then obtain p1 s1 p2 s2 where "b = p1 @ a @ s1" "c = p2 @ b @ s2"
    by (auto simp: sublist_def)
  then have "c = (p2 @ p1) @ a @ (s1 @ s2)" by simp
  then show ?thesis unfolding sublist_def by blast
qed

lemma splitWords_sublist: "w \<in> set (splitWords s) \<Longrightarrow> sublist w s"
proof (induction s rule: splitWords.induct)
  case (1 s)
  let ?w = "takeWhile (\<lambda>c. \<not> isWhiteSpace c) s"
  let ?r = "dropWhile (\<lambda>c. \<not> isWhiteSpace c) s"
  have pw: "sublist ?w s"
    by (rule prefix_imp_sublist [OF takeWhile_is_prefix])
  show ?case
  proof (cases "?r = []")
    case True
    with "1.prems" pw show ?thesis by (simp add: splitWords_last)
  next
    case False
    show ?thesis
    proof (cases "w = ?w")
      case True
      then show ?thesis using pw by simp
    next
      case nw: False
      with "1.prems" splitWords_more [OF False]
      have "w \<in> set (splitWords (dropWhile isWhiteSpace ?r))" by simp
      then have "sublist w (dropWhile isWhiteSpace ?r)"
        by (rule "1.IH" [OF refl refl False])
      moreover have "sublist (dropWhile isWhiteSpace ?r) ?r" "sublist ?r s"
        by (rule suffix_imp_sublist [OF suffix_dropWhile])+
      ultimately show ?thesis
        by (blast intro: sublist_trans)
    qed
  qed
qed

lemma word_includes_name_includes:
  "list_ex (\<lambda>word. includesStr word q) (splitWords s) \<Longrightarrow> includesStr s q"
proof -
  assume "list_ex (\<lambda>word. includesStr word q) (splitWords s)"
  then obtain w where "w \<in> set (splitWords s)" "sublist q w"
    by (auto simp: list_ex_iff includesStr_def)
  then have "sublist q s" using splitWords_sublist sublist_trans by blast
  then show ?thesis by (simp add: includesStr_def)
qed

lemma nameScore_range:
  "nameScore nl ws q \<in> {0, 80, 85, 90, 95, 100}"
  by (simp add: nameScore_def)

lemma nameScore_includes: "includesStr nl q \<Longrightarrow> 85 \<le> nameScore nl ws q"
  by (simp add: nameScore_def)

lemma fold_keywordStep_range:
  "k \<in> {0, 65, 70, 75} \<Longrightarrow> fold (keywordStep q) kws k \<in> {0, 65, 70, 75}"
proof (induction kws arbitrary: k)
  case Nil
  then show ?case by simp
next
  case (Cons kw kws)
  have "keywordStep q kw k \<in> {0, 65, 70, 75}"
    using Cons.prems by (auto simp: keywordStep_def Let_def)
  then show ?case using Cons.IH by simp
qed

lemma short_stage_idle:
  assumes "nameScore nl (splitWords nl) q \<le> s"
  shows "shortQueryStage nl (splitWords nl) q s = s"
proof (cases "s = 0")
  case False
  then show ?thesis by (simp add: shortQueryStage_def)
next
  case True
  have "\<not> includesStr nl q"
    using nameScore_includes [of nl q "splitWords nl"] assms True by auto
  moreover from this have "\<not> list_ex (\<lambda>word. includesStr word q) (splitWords nl)"
    using word_includes_name_includes by blast
  ultimately show ?thesis by (simp add: shortQueryStage_def Let_def)
qed

lemma keywordStage_ge: "s \<le> keywordStage n q s"
  by (simp add: keywordStage_def split: option.splits)

lemma scoreBeforeFuzzyNo7_eq: "scoreBeforeFuzzyNo7 q n = scoreBeforeFuzzy q n"
  by (simp add: scoreBeforeFuzzyNo7_def scoreBeforeFuzzy_def Let_def short_stage_idle keywordStage_ge)

lemma scoreNodeNo7_eq: "scoreNodeNo7 q n = scoreNode q n"
  by (simp add: scoreNodeNo7_def scoreNode_def scoreBeforeFuzzyNo7_eq)

lemma collectResultsNo7_eq: "collectResultsNo7 q ns = collectResults q ns"
  by (induction ns) (simp_all add: scoreNodeNo7_eq)

text \<open>
  C10. When heuristics 1 to 6 leave the score at 0, no word of the lower-cased name
  contains the query and the name does not contain it, so heuristic 7 never changes a
  score: the engine without it gives the same score to every node and the same result
  for every input.
\<close>

theorem short_query_stage_unreachable:
  "(keywordStage n q (nameScore (toLowerCase (name n)) (splitWords (toLowerCase (name n))) q) = 0 \<longrightarrow>
      \<not> list_ex (\<lambda>word. includesStr word q) (splitWords (toLowerCase (name n))) \<and>
      \<not> includesStr (toLowerCase (name n)) q) \<and>
   scoreNodeNo7 q n = scoreNode q n \<and>
   searchDestinationsNo7 cfg query lib = searchDestinations cfg query lib"
proof -
  let ?nl = "toLowerCase (name n)"
  have "\<not> includesStr ?nl q" if "keywordStage n q (nameScore ?nl (splitWords ?nl) q) = 0"
    using that keywordStage_ge [of "nameScore ?nl (splitWords ?nl) q" n q]
      nameScore_includes [of ?nl q "splitWords ?nl"] by auto
  moreover have "searchDestinationsNo7 cfg query lib = searchDestinations cfg query lib"
    by (simp add: searchDestinationsNo7_def searchDestinations_def collectResultsNo7_eq
        split: option.splits)
  moreover note word_includes_name_includes [of q ?nl] scoreNodeNo7_eq [of q n]
  ultimately show ?thesis by (intro conjI impI) auto
qed

theorem short_query_stage_unreachable_witness:
  "keywordStage (destination ''Library'' None) ''zz''
     (nameScore (toLowerCase ''Library'') (splitWords (toLowerCase ''Library'')) ''zz'') = 0 \<and>
   \<not> includesStr (toLowerCase ''Library'') ''zz'' \<and>
   searchDestinationsNo7 defaultConfig ''li''
     (Some \<lparr>nodes = [destination ''Cafe'' None, destination ''Library'' None]\<rparr>) =
     [destination ''Library'' None]"
proof -
  have nm: "name (destination ''Library'' None) = ''Library''"
    by (simp add: destination_def)
  have z: "keywordStage (destination ''Library'' None) ''zz''
     (nameScore (toLowerCase ''Library'') (splitWords (toLowerCase ''Library'')) ''zz'') = 0"
    by code_simp
  have s: "searchDestinations defaultConfig ''li''
     (Some \<lparr>nodes = [destination ''Cafe'' None, destination ''Library'' None]\<rparr>) =
     [destination ''Library'' None]"
    by code_simp
  from short_query_stage_unreachable [of "destination ''Library'' None" "''zz''" defaultConfig "''li''"
      "Some \<lparr>nodes = [destination ''Cafe'' None, destination ''Library'' None]\<rparr>"]
  show ?thesis using z s unfolding nm by simp
qed

lemma keywordStep_max: "0 \<le> k \<Longrightarrow> keywordStep q kw k = max k (keywordValue q kw)"
  by (simp add: keywordStep_def keywordValue_def Let_def)

lemma fold_keywordStep_max:
  "0 \<le> k \<Longrightarrow> fold (keywordStep q) kws k = fold max (map (keywordValue q) kws) k"
proof (induction kws arbitrary: k)
  case Nil
  then show ?case by simp
next
  case (Cons kw kws)
  have "0 \<le> max k (keywordValue q kw)" using Cons.prems by simp
  from Cons.IH [OF this] show ?case
    using Cons.prems by (simp add: keywordStep_max max.commute)
qed

lemma keywordScore_fold:
  "keywordScore q n =
     (case search_keywords n of None \<Rightarrow> 0 | Some kws \<Rightarrow> fold (keywordStep q) kws 0)"
proof (cases "search_keywords n")
  case None
  then show ?thesis by (simp add: keywordScore_def)
next
  case (Some kws)
  have "Max (set (0 # map (keywordValue q) kws)) = fold max (map (keywordValue q) kws) 0"
    by (rule Max.set_eq_fold)
  also have "\<dots> = fold (keywordStep q) kws 0"
    by (rule fold_keywordStep_max [symmetric]) simp
  finally show ?thesis unfolding keywordScore_def Some by simp
qed

lemma keywordScore_range: "keywordScore q n \<in> {0, 65, 70, 75}"
  unfolding keywordScore_fold
  using fold_keywordStep_range [of 0 q] by (auto split: option.splits)

lemma keywordStage_max: "0 \<le> s \<Longrightarrow> keywordStage n q s = max s (keywordScore q n)"
  by (simp add: keywordStage_def keywordScore_fold split: option.splits)

lemma patternLoop_range: "patternLoop ps q \<in> {0, 75, 85}"
  by (induction ps) auto

lemma getPatternMatchScore_range: "getPatternMatchScore t q \<in> {0, 75, 85}"
  using patternLoop_range [of "matchAllPatterns t" q] by (simp add: getPatternMatchScore_def)

lemma similarity_le_60:
  "\<lfloor>rat_of_int (int m - int d) / rat_of_int (int m) * 60\<rfloor> \<le> 60"
proof -
  have "rat_of_int (int m - int d) / rat_of_int (int m) \<le> 1"
    by (cases "m = 0") (simp_all add: divide_le_eq_1)
  then have "rat_of_int (int m - int d) / rat_of_int (int m) * 60 \<le> 1 * 60"
    by (rule mult_right_mono) simp
  then have "\<lfloor>rat_of_int (int m - int d) / rat_of_int (int m) * 60\<rfloor> \<le> \<lfloor>60 :: rat\<rfloor>"
    by (intro floor_mono) simp
  then show ?thesis by simp
qed

lemma fuzzyWord_le_60: "b \<le> 60 \<Longrightarrow> fuzzyWord q w b \<le> 60"
  using similarity_le_60
  by (auto simp: fuzzyWord_def Let_def split: option.splits)

lemma fold_fuzzyWord_le_60: "b \<le> 60 \<Longrightarrow> fold (fuzzyWord q) ws b \<le> 60"
  by (induction ws arbitrary: b) (auto simp: fuzzyWord_le_60)

lemma getFuzzyMatchScore_le_60: "getFuzzyMatchScore t q \<le> 60"
  by (simp add: getFuzzyMatchScore_def fold_fuzzyWord_le_60)

lemma scoreBeforeFuzzy_max:
  "scoreBeforeFuzzy q n =
     max (max (nameScore (toLowerCase (name n)) (splitWords (toLowerCase (name n))) q)
              (keywordScore q n))
         (if matchesPattern q then getPatternMatchScore (toLowerCase (name n)) q else 0)"
proof -
  let ?nl = "toLowerCase (name n)"
  let ?s5 = "nameScore ?nl (splitWords ?nl) q"
  have s5: "0 \<le> ?s5" using nameScore_range [of ?nl "splitWords ?nl" q] by auto
  have kw: "0 \<le> keywordScore q n" using keywordScore_range [of q n] by auto
  have s6: "keywordStage n q ?s5 = max ?s5 (keywordScore q n)"
    using s5 by (rule keywordStage_max)
  have s7: "shortQueryStage ?nl (splitWords ?nl) q (max ?s5 (keywordScore q n)) =
            max ?s5 (keywordScore q n)"
    by (rule short_stage_idle) simp
  show ?thesis
    using s5 kw by (simp add: scoreBeforeFuzzy_def Let_def s6 s7 patternStage_def)
qed

lemma scoreBeforeFuzzy_range: "scoreBeforeFuzzy q n = 0 \<or> 65 \<le> scoreBeforeFuzzy q n"
  unfolding scoreBeforeFuzzy_max
  using nameScore_range [of "toLowerCase (name n)" "splitWords (toLowerCase (name n))" q]
    keywordScore_range [of q n] getPatternMatchScore_range [of "toLowerCase (name n)" q]
  by auto

lemma scoreNode_max:
  "scoreNode q n =
     max (scoreBeforeFuzzy q n)
         (if 3 \<le> length q then getFuzzyMatchScore (toLowerCase (name n)) q else 0)"
  using scoreBeforeFuzzy_range [of q n] getFuzzyMatchScore_le_60 [of "toLowerCase (name n)" q]
    getFuzzyMatchScore_nonneg [of "toLowerCase (name n)" q]
  by (auto simp: scoreNode_def fuzzyStage_def)

lemma nameScore_max:
  "nameScore nl ws q =
     max (if nl = q then 100 else 0)
       (max (if startsWith nl q then 95 else 0)
          (max (if list_ex (\<lambda>word. startsWith word q) ws then 90 else 0)
             (max (if includesStr nl q then 85 else 0)
                  (if hasPartialWordMatch nl q then 80 else 0))))"
  by (simp add: nameScore_def)

lemma shortScore_le_name:
  "(if length q \<le> 3
    then (if list_ex (\<lambda>word. includesStr word q) (splitWords nl) then 75
          else if includesStr nl q then 70 else 0)
    else (0::int)) \<le> nameScore nl (splitWords nl) q"
  using nameScore_includes [of nl q "splitWords nl"] word_includes_name_includes [of q nl]
    nameScore_range [of nl "splitWords nl" q]
  by auto

text \<open>
  C5. The final score of a node is the maximum of the scores that the nine heuristics
  give on their own, so never a sum of them and never above the best single one, and it
  lies between 0 and 100.
\<close>

theorem score_is_best_heuristic:
  "scoreNode q n = Max (set (heuristicScores q n)) \<and> 0 \<le> scoreNode q n \<and> scoreNode q n \<le> 100"
proof -
  let ?nl = "toLowerCase (name n)"
  let ?h7 = "if length q \<le> 3
    then (if list_ex (\<lambda>word. includesStr word q) (splitWords ?nl) then 75
          else if includesStr ?nl q then 70 else 0)
    else (0::int)"
  let ?h8 = "if matchesPattern q then getPatternMatchScore ?nl q else 0"
  let ?h9 = "if 3 \<le> length q then getFuzzyMatchScore ?nl q else 0"
  let ?s5 = "nameScore ?nl (splitWords ?nl) q"
  have score: "scoreNode q n = max (max (max ?s5 (keywordScore q n)) ?h8) ?h9"
    by (simp only: scoreNode_max scoreBeforeFuzzy_max)
  have h7: "?h7 \<le> ?s5" by (rule shortScore_le_name)
  have "Max (set (heuristicScores q n)) =
        max (max (max (max ?s5 (keywordScore q n)) ?h7) ?h8) ?h9"
    unfolding heuristicScores_def Let_def Max.set_eq_fold nameScore_max [of ?nl "splitWords ?nl" q]
    by (simp only: fold_simps id_apply comp_apply max.assoc max.commute max.left_commute)
  also have "\<dots> = max (max (max ?s5 (keywordScore q n)) ?h8) ?h9"
    using h7 by (simp only: max.absorb1 max.assoc max.coboundedI1)
  finally have m: "Max (set (heuristicScores q n)) = scoreNode q n" using score by simp
  have "0 \<le> scoreNode q n" "scoreNode q n \<le> 100"
    unfolding score
    using nameScore_range [of ?nl "splitWords ?nl" q] keywordScore_range [of q n]
      getPatternMatchScore_range [of ?nl q] getFuzzyMatchScore_le_60 [of ?nl q]
      getFuzzyMatchScore_nonneg [of ?nl q]
    by auto
  with m show ?thesis by simp
qed

subsection \<open>Order and truncation of the result\<close>

lemma compare_le_key: "compareResults a b \<le> 0 \<longleftrightarrow> sortKey a \<le> sortKey b"
  by (auto simp: compareResults_def sortKey_def less_eq_prod_def)

lemma insertBy_insort: "insertBy compareResults x ys = insort_key sortKey x ys"
  by (induction ys) (simp_all add: compare_le_key)

lemma sortBy_sort_key: "sortBy compareResults xs = sort_key sortKey xs"
proof -
  have "insertBy compareResults = insort_key sortKey"
    by (intro ext) (rule insertBy_insort)
  then show ?thesis by (simp add: sortBy_def sort_key_def)
qed

lemma collectResults_nodes:
  "map node (collectResults q ns) =
     filter (\<lambda>n. node_type n = ''destination'' \<and> 0 < scoreNode q n) ns"
  by (induction ns) simp_all

lemma collectResults_score: "r \<in> set (collectResults q ns) \<Longrightarrow> score r = scoreNode q (node r)"
  by (induction ns) (auto split: if_splits)

lemma rankedNodes_mset: "mset (rankedNodes query lib) = mset (matchingNodes query lib)"
proof -
  let ?rs = "collectResults (trim (toLowerCase query)) (nodes lib)"
  have "mset (rankedNodes query lib) = image_mset node (mset (sort_key sortKey ?rs))"
    by (simp add: rankedNodes_def sortBy_sort_key)
  also have "\<dots> = mset (map node ?rs)" by simp
  finally show ?thesis
    by (simp add: collectResults_nodes matchingNodes_def finalScore_def)
qed

lemma rankedNodes_sorted:
  assumes "i < j" "j < length (rankedNodes query lib)"
  shows "finalScore query (rankedNodes query lib ! j) < finalScore query (rankedNodes query lib ! i) \<or>
         (finalScore query (rankedNodes query lib ! j) = finalScore query (rankedNodes query lib ! i) \<and>
          length (name (rankedNodes query lib ! i)) \<le> length (name (rankedNodes query lib ! j)))"
proof -
  let ?rs = "collectResults (trim (toLowerCase query)) (nodes lib)"
  let ?S = "sort_key sortKey ?rs"
  have R: "rankedNodes query lib = map node ?S"
    by (simp add: rankedNodes_def sortBy_sort_key)
  have len: "j < length ?S" "i < length ?S" using assms by (simp_all add: R)
  have "sorted (map sortKey ?S)" by (rule sorted_sort_key)
  then have "map sortKey ?S ! i \<le> map sortKey ?S ! j"
    using assms len by (intro sorted_nth_mono) simp_all
  then have key: "sortKey (?S ! i) \<le> sortKey (?S ! j)" using len by simp
  have "?S ! i \<in> set ?rs" "?S ! j \<in> set ?rs"
    using len nth_mem [of i ?S] nth_mem [of j ?S] by simp_all
  then have sc: "score (?S ! i) = finalScore query (node (?S ! i))"
      "score (?S ! j) = finalScore query (node (?S ! j))"
    by (simp_all add: collectResults_score finalScore_def)
  show ?thesis
    using key sc len unfolding R by (auto simp: sortKey_def less_eq_prod_def)
qed

lemma rankedNodes_stable:
  "filter (\<lambda>n. finalScore query n = s \<and> length (name n) = l) (rankedNodes query lib) =
   filter (\<lambda>n. finalScore query n = s \<and> length (name n) = l) (matchingNodes query lib)"
proof -
  let ?rs = "collectResults (trim (toLowerCase query)) (nodes lib)"
  let ?P = "\<lambda>n. finalScore query n = s \<and> length (name n) = l"
  have agree: "(?P \<circ> node) r = (sortKey r = (- s, l))" if "r \<in> set ?rs" for r
    using collectResults_score [OF that] by (auto simp: sortKey_def finalScore_def)
  have "filter ?P (rankedNodes query lib) = map node (filter (?P \<circ> node) (sort_key sortKey ?rs))"
    by (simp add: rankedNodes_def sortBy_sort_key filter_map)
  also have "filter (?P \<circ> node) (sort_key sortKey ?rs) =
             filter (\<lambda>r. sortKey r = (- s, l)) (sort_key sortKey ?rs)"
    by (rule filter_cong) (simp_all add: agree del: comp_apply)
  also have "\<dots> = filter (\<lambda>r. sortKey r = (- s, l)) ?rs" by (rule sort_key_stable)
  also have "\<dots> = filter (?P \<circ> node) ?rs"
    by (rule filter_cong) (simp_all add: agree del: comp_apply)
  also have "map node (filter (?P \<circ> node) ?rs) = filter ?P (map node ?rs)"
    by (simp add: filter_map)
  finally show ?thesis
    by (simp add: collectResults_nodes matchingNodes_def finalScore_def)
qed

lemma searchDestinations_take:
  "searchDestinations cfg query (Some lib) = take (maxSuggestions cfg) (rankedNodes query lib)"
  by (simp add: searchDestinations_def rankedNodes_def Let_def take_map)

lemma searchDestinations_length:
  "length (searchDestinations cfg query (Some lib)) =
     min (maxSuggestions cfg) (length (matchingNodes query lib))"
proof -
  have "length (rankedNodes query lib) = length (matchingNodes query lib)"
    using rankedNodes_mset [of query lib] by (metis size_mset)
  then show ?thesis by (simp add: searchDestinations_take min.commute)
qed

text \<open>
  C4. The result is the first \<open>maxSuggestions\<close> nodes of the ranking. The ranking is a
  rearrangement of the matching nodes; an earlier node has a higher score than a later
  one, or the same score and a name that is not longer; nodes with the same score and
  the same name length stand in their load order. So the result has \<open>maxSuggestions\<close>
  nodes, or all matching nodes when there are fewer: 6 of 20 with the default.
\<close>

theorem ranked_sorted_stable_truncated:
  "searchDestinations cfg query (Some lib) = take (maxSuggestions cfg) (rankedNodes query lib) \<and>
   mset (rankedNodes query lib) = mset (matchingNodes query lib) \<and>
   (\<forall>i j. i < j \<and> j < length (rankedNodes query lib) \<longrightarrow>
      finalScore query (rankedNodes query lib ! j) < finalScore query (rankedNodes query lib ! i) \<or>
      (finalScore query (rankedNodes query lib ! j) = finalScore query (rankedNodes query lib ! i) \<and>
       length (name (rankedNodes query lib ! i)) \<le> length (name (rankedNodes query lib ! j)))) \<and>
   (\<forall>s l. filter (\<lambda>n. finalScore query n = s \<and> length (name n) = l) (rankedNodes query lib) =
          filter (\<lambda>n. finalScore query n = s \<and> length (name n) = l) (matchingNodes query lib)) \<and>
   length (searchDestinations cfg query (Some lib)) =
     min (maxSuggestions cfg) (length (matchingNodes query lib)) \<and>
   (length (matchingNodes query lib) = 20 \<and> maxSuggestions cfg = 6 \<longrightarrow>
      length (searchDestinations cfg query (Some lib)) = 6)"
  using rankedNodes_sorted [of _ _ query lib]
  by (simp add: searchDestinations_take [symmetric] rankedNodes_mset rankedNodes_stable
      searchDestinations_length)

lemma rooms20_matching: "length (matchingNodes ''room'' rooms20) = 20"
  by code_simp

lemma rooms20_result: "map name (searchDestinations defaultConfig ''room'' (Some rooms20)) =
     [''Room 1'', ''Room 2'', ''Room 3'', ''Room 4'', ''Room 5'', ''Room 6'']"
  by code_simp

theorem ranked_sorted_stable_truncated_witness:
  "length (matchingNodes ''room'' rooms20) = 20 \<and> maxSuggestions defaultConfig = 6 \<and>
   length (searchDestinations defaultConfig ''room'' (Some rooms20)) = 6 \<and>
   map name (searchDestinations defaultConfig ''room'' (Some rooms20)) =
     [''Room 1'', ''Room 2'', ''Room 3'', ''Room 4'', ''Room 5'', ''Room 6'']"
proof -
  have m: "maxSuggestions defaultConfig = 6" by (simp add: defaultConfig_def)
  from ranked_sorted_stable_truncated [of defaultConfig "''room''" rooms20] rooms20_matching m
  have "length (searchDestinations defaultConfig ''room'' (Some rooms20)) = 6" by blast
  with rooms20_matching m rooms20_result show ?thesis by simp
qed

subsection \<open>Room 2B\<close>

text \<open>For the query 2b the node Room 2B does not score 85: the word 2b of its name
  starts with the query, which gives 90.\<close>

theorem room_2b_final_score_not_85:
  "scoreNode (trim (toLowerCase ''2b'')) (destination ''Room 2B'' None) = 90 \<and>
   scoreNode (trim (toLowerCase ''2b'')) (destination ''Room 2B'' None) \<noteq> 85"
  by code_simp

lemma query_2b: "trim (toLowerCase ''2b'') = ''2b''"
  by code_simp

lemma room_2b_parts:
  "nameScore (toLowerCase ''Room 2B'') (splitWords (toLowerCase ''Room 2B'')) ''2b'' = 90"
  "matchesPattern ''2b''"
  "getPatternMatchScore (toLowerCase ''Room 2B'') ''2b'' = 85"
  "nameScore (toLowerCase ''2nd Floor Break Room'')
     (splitWords (toLowerCase ''2nd Floor Break Room'')) ''2b'' = 0"
  "getPatternMatchScore (toLowerCase ''2nd Floor Break Room'') ''2b'' = 0"
  by code_simp+

lemma room_2b_score:
  assumes "name n = ''Room 2B''"
  shows "scoreNode ''2b'' n = 90"
  using keywordScore_range [of "''2b''" n]
  by (auto simp: scoreNode_max scoreBeforeFuzzy_max assms room_2b_parts)

lemma second_floor_score:
  assumes "name n = ''2nd Floor Break Room''"
  shows "scoreNode ''2b'' n \<le> 75"
  using keywordScore_range [of "''2b''" n]
  by (auto simp: scoreNode_max scoreBeforeFuzzy_max assms room_2b_parts)

text \<open>
  C2, amended. For the query 2b and a node named Room 2B, the pattern heuristic gives
  85 and the final score is 90, whatever the keywords; a node named 2nd Floor Break
  Room scores at most 75, and wherever both are in the result, Room 2B comes first.
\<close>

theorem room_2b_ranks_above:
  assumes "name n1 = ''Room 2B''" and "name n2 = ''2nd Floor Break Room''"
  shows "getPatternMatchScore (toLowerCase (name n1)) ''2b'' = 85 \<and>
         scoreNode (trim (toLowerCase ''2b'')) n1 = 90 \<and>
         scoreNode (trim (toLowerCase ''2b'')) n2 \<le> 75 \<and>
         (\<forall>i j. i < length (searchDestinations cfg ''2b'' (Some lib)) \<and>
                j < length (searchDestinations cfg ''2b'' (Some lib)) \<and>
                searchDestinations cfg ''2b'' (Some lib) ! i = n1 \<and>
                searchDestinations cfg ''2b'' (Some lib) ! j = n2 \<longrightarrow> i < j)"
proof -
  let ?R = "rankedNodes ''2b'' lib"
  let ?out = "searchDestinations cfg ''2b'' (Some lib)"
  have s1: "finalScore ''2b'' n1 = 90"
    by (simp add: finalScore_def query_2b room_2b_score [OF assms(1)])
  have s2: "finalScore ''2b'' n2 \<le> 75"
    by (simp add: finalScore_def query_2b second_floor_score [OF assms(2)])
  have order: "i < j" if ij: "i < length ?out" "j < length ?out" "?out ! i = n1" "?out ! j = n2" for i j
  proof (rule ccontr)
    assume "\<not> i < j"
    have out: "?out = take (maxSuggestions cfg) ?R" by (rule searchDestinations_take)
    have Ri: "?R ! i = n1" "i < length ?R" and Rj: "?R ! j = n2" "j < length ?R"
      using ij unfolding out by simp_all
    have "i \<noteq> j" using Ri Rj assms by auto
    with \<open>\<not> i < j\<close> have "j < i" by simp
    from rankedNodes_sorted [OF this Ri(2)] show False
      using s1 s2 Ri(1) Rj(1) by simp
  qed
  show ?thesis
    using order s1 s2 by (simp add: finalScore_def assms(1) room_2b_parts(3))
qed

theorem room_2b_ranks_above_witness:
  "name (destination ''Room 2B'' None) = ''Room 2B'' \<and>
   name (destination ''2nd Floor Break Room'' (Some [''near 2b''])) = ''2nd Floor Break Room'' \<and>
   scoreNode (trim (toLowerCase ''2b'')) (destination ''Room 2B'' None) = 90 \<and>
   searchDestinations defaultConfig ''2b''
     (Some \<lparr>nodes = [destination ''2nd Floor Break Room'' (Some [''near 2b'']),
                     destination ''Room 2B'' None]\<rparr>) =
     [destination ''Room 2B'' None, destination ''2nd Floor Break Room'' (Some [''near 2b''])]"
proof -
  have a: "name (destination ''Room 2B'' None) = ''Room 2B''"
    and b: "name (destination ''2nd Floor Break Room'' (Some [''near 2b''])) = ''2nd Floor Break Room''"
    by (simp_all add: destination_def)
  have c: "searchDestinations defaultConfig ''2b''
     (Some \<lparr>nodes = [destination ''2nd Floor Break Room'' (Some [''near 2b'']),
                     destination ''Room 2B'' None]\<rparr>) =
     [destination ''Room 2B'' None, destination ''2nd Floor Break Room'' (Some [''near 2b''])]"
    by code_simp
  from room_2b_ranks_above [OF a b] a b c show ?thesis by simp
qed

subsection \<open>The empty query, in general\<close>

text \<open>For a query that is empty after lower-casing and trimming, every destination
  matches, so the engine returns as many nodes as there are destinations, up to
  \<open>maxSuggestions\<close>.\<close>

lemma empty_query_score: "95 \<le> scoreNode [] n"
proof -
  have "95 \<le> nameScore (toLowerCase (name n)) (splitWords (toLowerCase (name n))) []"
    by (simp add: nameScore_def startsWith_def)
  then show ?thesis
    by (simp add: scoreNode_max scoreBeforeFuzzy_max)
qed

lemma empty_query_matches_all:
  assumes "trim (toLowerCase query) = []"
  shows "matchingNodes query lib = filter (\<lambda>n. node_type n = ''destination'') (nodes lib)"
proof -
  have "0 < finalScore query n" for n
    using empty_query_score [of n] by (simp add: finalScore_def assms)
  then show ?thesis by (simp add: matchingNodes_def)
qed

lemma empty_query_length:
  assumes "trim (toLowerCase query) = []"
  shows "length (searchDestinations cfg query (Some lib)) =
     min (maxSuggestions cfg) (length (filter (\<lambda>n. node_type n = ''destination'') (nodes lib)))"
  by (simp add: searchDestinations_length empty_query_matches_all [OF assms])

subsection \<open>The fuzzy score\<close>

lemma lev_rev: "lev (rev a) (rev b) = lev a b"
proof (rule antisym)
  have "transforms (lev a b) (rev a) (rev b)"
    using transforms_lev [of a b] by (simp add: transforms_rev_iff)
  then show "lev (rev a) (rev b) \<le> lev a b" by (rule transforms_lower)
next
  have "transforms (lev (rev a) (rev b)) a b"
    using transforms_lev [of "rev a" "rev b"] by (simp add: transforms_rev_iff)
  then show "lev a b \<le> lev (rev a) (rev b)" by (rule transforms_lower)
qed

lemma levenshteinDistance_exact: "levenshteinDistance a b = Some (lev a b)"
  by (simp add: levenshteinDistance_lev lev_rev lev_sym [of b a])

lemma fuzzyWord_spec:
  "fuzzyWord q w b = (if fuzzyCandidate q w then max b (wordScore q w) else b)"
proof (cases "max (length w) (length q) = 0")
  case True
  then show ?thesis
    by (simp add: fuzzyWord_def levenshteinDistance_exact fuzzyCandidate_def similarity_def)
next
  case False
  let ?m = "max (length w) (length q)"
  have eq: "rat_of_int (int ?m - int (lev w q)) / rat_of_int (int ?m) =
            1 - rat_of_nat (lev w q) / rat_of_nat ?m"
    using False by (simp add: diff_divide_distrib)
  show ?thesis
    unfolding fuzzyWord_def levenshteinDistance_exact option.case Let_def eq fuzzyCandidate_def
      wordScore_def similarity_def
    using False by auto
qed

lemma fold_fuzzyWord_spec:
  "fold (fuzzyWord q) ws b =
     fold max (map (wordScore q) (filter (fuzzyCandidate q) ws)) b"
  by (induction ws arbitrary: b) (simp_all add: fuzzyWord_spec max.commute)

text \<open>
  C7. \<open>getFuzzyMatchScore\<close> is the formula: among the words of the text split at white
  space whose length differs from the query's by at most 2 and whose similarity, one
  minus distance over the larger length, is at least 0.70, the best floor of 60 times the
  similarity. For the query libary and the name Library Commons the word library is at
  distance 1, its similarity is 6/7, and the score is 51.
\<close>

theorem fuzzy_score_formula:
  "getFuzzyMatchScore text q = fuzzySpec text q \<and>
   levenshteinDistance ''library'' ''libary'' = Some 1 \<and>
   similarity ''library'' ''libary'' = Some (6 / 7) \<and>
   fuzzyCandidate ''libary'' ''library'' \<and>
   wordScore ''libary'' ''library'' = 51 \<and>
   getFuzzyMatchScore (toLowerCase ''Library Commons'') ''libary'' = 51"
proof -
  have "fuzzySpec text q =
      fold max (map (wordScore q) (filter (fuzzyCandidate q) (splitWords text))) 0"
    unfolding fuzzySpec_def by (rule Max.set_eq_fold)
  then have "getFuzzyMatchScore text q = fuzzySpec text q"
    by (simp add: getFuzzyMatchScore_def fold_fuzzyWord_spec)
  moreover have "levenshteinDistance ''library'' ''libary'' = Some 1"
    by (simp add: levenshteinDistance_exact)
  moreover have s: "similarity ''library'' ''libary'' = Some (6 / 7)"
    by (simp add: similarity_def)
  moreover have "fuzzyCandidate ''libary'' ''library''"
    by (simp add: fuzzyCandidate_def s)
  moreover have "wordScore ''libary'' ''library'' = 51"
    by (simp add: wordScore_def s floor_unique)
  moreover have "getFuzzyMatchScore (toLowerCase ''Library Commons'') ''libary'' = 51"
    by code_simp
  ultimately show ?thesis by blast
qed

subsection \<open>Highlighting\<close>

lemma pieceText_simps [simp]: "pieceText (Plain c) = [c]" "pieceText (Marked m) = m"
  by (simp_all add: pieceText_def)

lemma backslash_syntax: "isSyntaxChar backslash"
  by (simp add: isSyntaxChar_def)

lemma parseLiterals_plain:
  "\<not> isSyntaxChar c \<Longrightarrow> parseLiterals (c # r) = map_option ((#) c) (parseLiterals r)"
  using backslash_syntax by (cases r) auto

lemma parseLiterals_escaped:
  "isSyntaxChar d \<Longrightarrow> parseLiterals (backslash # d # r) = map_option ((#) d) (parseLiterals r)"
  by simp

lemma parseLiterals_escapeRegExp: "parseLiterals (escapeRegExp s) = Some s"
proof (induction s)
  case Nil
  then show ?case by (simp add: escapeRegExp_def)
next
  case (Cons c s)
  have "escapeRegExp (c # s) = (if isSyntaxChar c then [backslash, c] else [c]) @ escapeRegExp s"
    by (simp add: escapeRegExp_def)
  then show ?case
    using Cons by (simp add: parseLiterals_plain parseLiterals_escaped del: parseLiterals.simps)
qed

lemma compileGroup_escaped: "compileGroup (''('' @ escapeRegExp t @ '')'') = Some t"
  by (simp add: compileGroup_def parseLiterals_escapeRegExp butlast_append)

lemma scan_Nil: "scanMatches t [] = []"
  by (subst scanMatches.simps) simp

lemma scan_match:
  assumes "s \<noteq> []" "t \<noteq> []" "matchesAt t s"
  shows "scanMatches t s = Marked (take (length t) s) # scanMatches t (drop (length t) s)"
  by (subst scanMatches.simps) (simp only: assms if_True if_False simp_thms)

lemma scan_plain:
  assumes "s \<noteq> []" "\<not> (t \<noteq> [] \<and> matchesAt t s)"
  shows "scanMatches t s = Plain (hd s) # scanMatches t (tl s)"
  by (subst scanMatches.simps) (simp only: assms if_True if_False simp_thms)

lemma scan_text: "concat (map pieceText (scanMatches t s)) = s"
proof (induction t s rule: scanMatches.induct)
  case (1 t s)
  show ?case
  proof (cases "s = []")
    case True
    then show ?thesis by (simp add: scan_Nil)
  next
    case ne: False
    show ?thesis
    proof (cases "t \<noteq> [] \<and> matchesAt t s")
      case True
      then have "scanMatches t s = Marked (take (length t) s) # scanMatches t (drop (length t) s)"
        using ne by (simp add: scan_match)
      moreover have "concat (map pieceText (scanMatches t (drop (length t) s))) = drop (length t) s"
        using "1.IH"(1) [OF ne True] .
      ultimately show ?thesis by simp
    next
      case False
      then have "scanMatches t s = Plain (hd s) # scanMatches t (tl s)"
        using ne by (simp add: scan_plain)
      moreover have "concat (map pieceText (scanMatches t (tl s))) = tl s"
        using "1.IH"(2) [OF ne False] .
      ultimately show ?thesis using ne by simp
    qed
  qed
qed

lemma scan_marked:
  "Marked m \<in> set (scanMatches t s) \<Longrightarrow> map canonicalize m = map canonicalize t"
proof (induction t s rule: scanMatches.induct)
  case (1 t s)
  show ?case
  proof (cases "s = []")
    case True
    then show ?thesis using "1.prems" by (simp add: scan_Nil)
  next
    case ne: False
    show ?thesis
    proof (cases "t \<noteq> [] \<and> matchesAt t s")
      case True
      then have eq: "scanMatches t s = Marked (take (length t) s) # scanMatches t (drop (length t) s)"
        using ne by (simp add: scan_match)
      show ?thesis
      proof (cases "m = take (length t) s")
        case True
        then show ?thesis using \<open>t \<noteq> [] \<and> matchesAt t s\<close> by (simp add: matchesAt_def)
      next
        case False
        then have "Marked m \<in> set (scanMatches t (drop (length t) s))"
          using "1.prems" eq by simp
        then show ?thesis using "1.IH"(1) [OF ne True] by simp
      qed
    next
      case False
      then have "scanMatches t s = Plain (hd s) # scanMatches t (tl s)"
        using ne by (simp add: scan_plain)
      then have "Marked m \<in> set (scanMatches t (tl s))" using "1.prems" by simp
      then show ?thesis using "1.IH"(2) [OF ne False] by simp
    qed
  qed
qed

lemma starts_cover:
  "t \<noteq> [] \<Longrightarrow> matchesAt t (drop i s) \<Longrightarrow>
   \<exists>k \<in> set (starts off (scanMatches t s)). k \<le> off + i \<and> off + i < k + length t"
proof (induction t s arbitrary: i off rule: scanMatches.induct)
  case (1 t s)
  have tpos: "0 < length t" using "1.prems"(1) by simp
  show ?case
  proof (cases "s = []")
    case True
    then show ?thesis using "1.prems" by (simp add: matchesAt_def)
  next
    case ne: False
    show ?thesis
    proof (cases "t \<noteq> [] \<and> matchesAt t s")
      case True
      then have eq: "starts off (scanMatches t s) =
          off # starts (off + length t) (scanMatches t (drop (length t) s))"
        using ne by (simp add: scan_match matchesAt_def)
      show ?thesis
      proof (cases "i < length t")
        case True
        then show ?thesis unfolding eq by simp
      next
        case False
        then have "drop i s = drop (i - length t) (drop (length t) s)" by simp
        then have "matchesAt t (drop (i - length t) (drop (length t) s))"
          using "1.prems"(2) by simp
        from "1.IH"(1) [OF ne True "1.prems"(1) this, of "off + length t"]
        obtain k where "k \<in> set (starts (off + length t) (scanMatches t (drop (length t) s)))"
            "k \<le> off + length t + (i - length t)" "off + length t + (i - length t) < k + length t"
          by blast
        then show ?thesis unfolding eq using False by auto
      qed
    next
      case False
      then have eq: "starts off (scanMatches t s) = starts (Suc off) (scanMatches t (tl s))"
        using ne by (simp add: scan_plain)
      have "i \<noteq> 0" using False "1.prems" by (cases i) auto
      then obtain i' where i': "i = Suc i'" by (cases i) auto
      then have "drop i s = drop i' (tl s)" by (simp add: drop_Suc)
      then have "matchesAt t (drop i' (tl s))" using "1.prems"(2) by simp
      from "1.IH"(2) [OF ne False "1.prems"(1) this, of "Suc off"]
      show ?thesis unfolding eq i' by auto
    qed
  qed
qed

lemma starts_occur:
  "k \<in> set (starts off (scanMatches t s)) \<Longrightarrow> off \<le> k \<and> t \<noteq> [] \<and> matchesAt t (drop (k - off) s)"
proof (induction t s arbitrary: off rule: scanMatches.induct)
  case (1 t s)
  show ?case
  proof (cases "s = []")
    case True
    then show ?thesis using "1.prems" by (simp add: scan_Nil)
  next
    case ne: False
    show ?thesis
    proof (cases "t \<noteq> [] \<and> matchesAt t s")
      case True
      then have eq: "starts off (scanMatches t s) =
          off # starts (off + length t) (scanMatches t (drop (length t) s))"
        using ne by (simp add: scan_match matchesAt_def)
      show ?thesis
      proof (cases "k = off")
        case True
        then show ?thesis using \<open>t \<noteq> [] \<and> matchesAt t s\<close> by simp
      next
        case False
        then have "k \<in> set (starts (off + length t) (scanMatches t (drop (length t) s)))"
          using "1.prems" eq by simp
        from "1.IH"(1) [OF ne True this]
        have c: "off + length t \<le> k \<and> t \<noteq> [] \<and>
                 matchesAt t (drop (k - (off + length t)) (drop (length t) s))" .
        have le: "off + length t \<le> k" by (rule conjunct1 [OF c])
        have m: "matchesAt t (drop (k - (off + length t)) (drop (length t) s))"
          by (rule conjunct2 [OF conjunct2 [OF c]])
        have "t \<noteq> []" by (rule conjunct1 [OF conjunct2 [OF c]])
        from le have e: "k - (off + length t) + length t = k - off" by arith
        have "drop (k - (off + length t)) (drop (length t) s) = drop (k - off) s"
          by (simp only: drop_drop e)
        with m le \<open>t \<noteq> []\<close> show ?thesis by simp
      qed
    next
      case False
      then have eq: "starts off (scanMatches t s) = starts (Suc off) (scanMatches t (tl s))"
        using ne by (simp add: scan_plain)
      have "k \<in> set (starts (Suc off) (scanMatches t (tl s)))"
        using "1.prems" eq by simp
      from "1.IH"(2) [OF ne False this]
      have c: "Suc off \<le> k \<and> t \<noteq> [] \<and> matchesAt t (drop (k - Suc off) (tl s))" .
      have le: "Suc off \<le> k" by (rule conjunct1 [OF c])
      have m: "matchesAt t (drop (k - Suc off) (tl s))"
        by (rule conjunct2 [OF conjunct2 [OF c]])
      have "t \<noteq> []" by (rule conjunct1 [OF conjunct2 [OF c]])
      from le have e: "Suc (k - Suc off) = k - off" by arith
      have "drop (k - Suc off) (tl s) = drop (Suc (k - Suc off)) s"
        by (simp add: drop_Suc)
      with m le \<open>t \<noteq> []\<close> e show ?thesis by simp
    qed
  qed
qed

lemma highlight_nonempty:
  "t \<noteq> [] \<Longrightarrow> highlightSearchTerm nm t = Some (concat (map renderPiece (scanMatches t nm)))"
  unfolding highlightSearchTerm_def compileGroup_escaped
  by (simp add: replaceMatches_def)

text \<open>In aaa the term aa occurs at offsets 0 and 1; the scan wraps the first
  occurrence and resumes behind it, so the second one is not wrapped.\<close>

theorem highlight_overlapping_occurrence:
  "occursAt ''aa'' ''aaa'' 1 \<and> markedStarts ''aa'' ''aaa'' = [0] \<and>
   1 \<notin> set (markedStarts ''aa'' ''aaa'') \<and>
   highlightSearchTerm ''aaa'' ''aa'' = Some (markOpen @ ''aa'' @ markClose @ ''a'')"
  by code_simp

text \<open>
  C9, amended. The name is returned unchanged for the empty term. The escaped term is
  read as the literal characters of the term, so no character of it acts as an
  operator. Otherwise the result is the name with some pieces between the markers:
  taking the markers away gives the name back, casing included; every wrapped piece
  equals the term up to case and stands where the term occurs; and every occurrence of
  the term is wrapped or overlaps a wrapped occurrence that starts before it.
\<close>

theorem highlight_wraps_scanned_occurrences:
  "highlightSearchTerm nm [] = Some nm \<and>
   compileGroup (''('' @ escapeRegExp t @ '')'') = Some t \<and>
   (t \<noteq> [] \<longrightarrow>
      highlightSearchTerm nm t = Some (concat (map renderPiece (scanMatches t nm)))) \<and>
   concat (map pieceText (scanMatches t nm)) = nm \<and>
   (\<forall>m. Marked m \<in> set (scanMatches t nm) \<longrightarrow> map canonicalize m = map canonicalize t) \<and>
   (\<forall>k. k \<in> set (markedStarts t nm) \<longrightarrow> occursAt t nm k) \<and>
   (\<forall>i. occursAt t nm i \<longrightarrow>
      (\<exists>k. k \<in> set (markedStarts t nm) \<and> k \<le> i \<and> i < k + length t))"
proof -
  have 1: "highlightSearchTerm nm [] = Some nm"
    by (simp add: highlightSearchTerm_def)
  have 6: "occursAt t nm k" if "k \<in> set (markedStarts t nm)" for k
    using starts_occur [of k 0 t nm] that by (simp add: markedStarts_def occursAt_def)
  have 7: "\<exists>k. k \<in> set (markedStarts t nm) \<and> k \<le> i \<and> i < k + length t"
    if "occursAt t nm i" for i
    using starts_cover [of t i nm 0] that by (auto simp: markedStarts_def occursAt_def)
  from 1 6 7 show ?thesis
    using compileGroup_escaped [of t] highlight_nonempty [of t nm] scan_text [of t nm]
      scan_marked [of _ t nm]
    by blast
qed

theorem highlight_wraps_scanned_occurrences_witness:
  "''2b'' \<noteq> [] \<and> occursAt ''2b'' ''Room 2B'' 5 \<and> markedStarts ''2b'' ''Room 2B'' = [5] \<and>
   highlightSearchTerm ''Room 2B'' ''2b'' = Some (''Room '' @ markOpen @ ''2B'' @ markClose) \<and>
   highlightSearchTerm ''a.c abc'' ''a.c'' = Some (markOpen @ ''a.c'' @ markClose @ '' abc'')"
proof -
  have a: "scanMatches ''2b'' ''Room 2B'' =
      [Plain CHR ''R'', Plain CHR ''o'', Plain CHR ''o'', Plain CHR ''m'', Plain CHR '' '',
       Marked ''2B'']"
    by code_simp
  have b: "occursAt ''2b'' ''Room 2B'' 5" by code_simp
  have c: "highlightSearchTerm ''a.c abc'' ''a.c'' = Some (markOpen @ ''a.c'' @ markClose @ '' abc'')"
    by code_simp
  from highlight_wraps_scanned_occurrences [of "''Room 2B''" "''2b''"]
  have "highlightSearchTerm ''Room 2B'' ''2b'' =
        Some (concat (map renderPiece (scanMatches ''2b'' ''Room 2B'')))"
    by simp
  then have d: "highlightSearchTerm ''Room 2B'' ''2b'' = Some (''Room '' @ markOpen @ ''2B'' @ markClose)"
    unfolding a by (simp add: renderPiece_def)
  have e: "markedStarts ''2b'' ''Room 2B'' = [5]"
    unfolding markedStarts_def a by simp
  from b c d e show ?thesis by simp
qed

end
